theory Spec2Isabelle
  imports Complex_Main "HOL-Library.Sublist" "HOL-Library.Word"
begin

section \<open>Vector-to-tile conversion (tools/shp\_to\_tiles.py)\<close>

text \<open>
  Python floats are modelled as the real numbers, Python ints as \<open>int\<close>, strings as
  \<open>string\<close>, tuples as pairs and lists as lists.  A raised exception is a value
  \<open>Inl e\<close> of a sum type.
\<close>

datatype py_error = ZeroDivisionError | StructError | ValueError

type_synonym point = "real \<times> real"
type_synonym tile = "int \<times> int"

subsection \<open>Strings and attribute records\<close>

text \<open>\<open>str.lower\<close> on the ASCII letters; every other character is kept.\<close>

definition lower_char :: "char \<Rightarrow> char" where
  "lower_char c =
     (case map_of (zip ''ABCDEFGHIJKLMNOPQRSTUVWXYZ'' ''abcdefghijklmnopqrstuvwxyz'') c of
        None \<Rightarrow> c | Some l \<Rightarrow> l)"

definition lower :: "string \<Rightarrow> string" where
  "lower s = map lower_char s"

text \<open>An attribute record is a dict from field name to decoded text.\<close>

type_synonym dbf_record = "string \<rightharpoonup> string"

text \<open>\<open>d.get(k, default)\<close>\<close>

definition dict_get :: "('k \<rightharpoonup> 'v) \<Rightarrow> 'k \<Rightarrow> 'v \<Rightarrow> 'v" where
  "dict_get d k dflt = (case d k of None \<Rightarrow> dflt | Some v \<Rightarrow> v)"

subsection \<open>Classification tables\<close>




subsection \<open>Tiles\<close>

text \<open>
  \<open>math.floor(x / tile_size)\<close>.  The division raises \<open>ZeroDivisionError\<close> for a tile
  size of 0; the callers below return that error before the first call.
\<close>

definition tile_xy :: "real \<Rightarrow> real \<Rightarrow> real \<Rightarrow> tile" where
  "tile_xy x y tile_size = (\<lfloor>x / tile_size\<rfloor>, \<lfloor>y / tile_size\<rfloor>)"

definition tile_center :: "int \<Rightarrow> int \<Rightarrow> real \<Rightarrow> point" where
  "tile_center tx ty tile_size =
     (of_int tx * tile_size + tile_size * 0.5, of_int ty * tile_size + tile_size * 0.5)"

definition hypot :: "real \<Rightarrow> real \<Rightarrow> real" where
  "hypot x y = sqrt (x * x + y * y)"

text \<open>\<open>int(r)\<close> on a float: truncation towards zero.\<close>

definition py_int :: "real \<Rightarrow> int" where
  "py_int r = (if r < 0 then \<lceil>r\<rceil> else \<lfloor>r\<rfloor>)"

definition interpolate_point :: "point \<Rightarrow> point \<Rightarrow> real \<Rightarrow> point" where
  "interpolate_point p1 p2 t =
     (fst p1 + t * (fst p2 - fst p1), snd p1 + t * (snd p2 - snd p1))"

subsection \<open>Splitting a polyline at tile boundaries\<close>

text \<open>
  The loop state of \<open>split_polyline_by_tiles\<close>.  The closure \<open>add_segment\<close> mutates the
  result dict; the model records its calls in order (\<open>calls\<close>) and replays them on the
  dict afterwards, which keeps the order of emission observable.
\<close>

record split_state =
  calls :: "(tile \<times> point list) list"
  current_segment :: "point list"
  current_tile :: tile

text \<open>The body of the inner loop \<open>for step in range(1, num_steps)\<close>.\<close>

definition interp_step ::
  "real \<Rightarrow> point \<Rightarrow> point \<Rightarrow> int \<Rightarrow> split_state \<Rightarrow> int \<Rightarrow> split_state" where
  "interp_step tile_size prev_pt curr_pt num_steps st step =
     (let t = of_int step / of_int num_steps;
          interp_pt = interpolate_point prev_pt curr_pt t;
          interp_tile = tile_xy (fst interp_pt) (snd interp_pt) tile_size
      in if interp_tile \<noteq> current_tile st
         then st\<lparr>calls := calls st @ [(current_tile st, current_segment st @ [interp_pt])],
                 current_segment := [interp_pt],
                 current_tile := interp_tile\<rparr>
         else st)"

text \<open>The body of the outer loop, for \<open>prev_pt = pts[i - 1]\<close> and \<open>curr_pt = pts[i]\<close>.\<close>

definition visit_point :: "real \<Rightarrow> split_state \<Rightarrow> point \<times> point \<Rightarrow> split_state" where
  "visit_point tile_size st pp =
     (let prev_pt = fst pp; curr_pt = snd pp;
          curr_tile = tile_xy (fst curr_pt) (snd curr_pt) tile_size
      in if curr_tile = current_tile st
         then st\<lparr>current_segment := current_segment st @ [curr_pt]\<rparr>
         else
           let dx = fst curr_pt - fst prev_pt;
               dy = snd curr_pt - snd prev_pt;
               dist = hypot dx dy;
               st1 = (if dist > tile_size * 0.5
                      then let num_steps = max 2 (py_int (dist / (tile_size * 0.4)))
                           in foldl (interp_step tile_size prev_pt curr_pt num_steps) st
                                [1 .. num_steps - 1]
                      else st)
           in if curr_tile \<noteq> current_tile st1
              then st1\<lparr>calls := calls st1 @ [(current_tile st1, current_segment st1 @ [curr_pt])],
                       current_segment := [curr_pt],
                       current_tile := curr_tile\<rparr>
              else st1\<lparr>current_segment := current_segment st1 @ [curr_pt]\<rparr>)"

text \<open>
  All calls of \<open>add_segment\<close> for a polyline of at least one point, the one after the
  loop included.
\<close>

definition split_calls :: "point list \<Rightarrow> real \<Rightarrow> (tile \<times> point list) list" where
  "split_calls pts tile_size =
     (let st0 = \<lparr>calls = [], current_segment = [hd pts],
                 current_tile = tile_xy (fst (hd pts)) (snd (hd pts)) tile_size\<rparr>;
          st = foldl (visit_point tile_size) st0 (zip pts (tl pts))
      in calls st @ [(current_tile st, current_segment st)])"

text \<open>
  \<open>result[tile].append(segment)\<close>, creating the entry when the key is new.  The dict is
  an association list in insertion order.
\<close>

fun dict_append :: "'k \<Rightarrow> 'v \<Rightarrow> ('k \<times> 'v list) list \<Rightarrow> ('k \<times> 'v list) list" where
  "dict_append k v [] = [(k, [v])]"
| "dict_append k v ((k', vs) # rest) =
     (if k' = k then (k', vs @ [v]) # rest else (k', vs) # dict_append k v rest)"

definition add_segment ::
  "(tile \<times> point list list) list \<Rightarrow> tile \<times> point list \<Rightarrow> (tile \<times> point list list) list" where
  "add_segment result ts =
     (if length (snd ts) \<ge> 2 then dict_append (fst ts) (snd ts) result else result)"

text \<open>The fragments that \<open>add_segment\<close> stores, in the order of emission.\<close>

definition emitted_fragments :: "point list \<Rightarrow> real \<Rightarrow> (tile \<times> point list) list" where
  "emitted_fragments pts tile_size =
     filter (\<lambda>ts. length (snd ts) \<ge> 2) (split_calls pts tile_size)"

definition split_polyline_by_tiles ::
  "point list \<Rightarrow> real \<Rightarrow> py_error + (tile \<times> point list list) list" where
  "split_polyline_by_tiles pts tile_size =
     (if length pts < 2 then Inr []
      else if tile_size = 0 then Inl ZeroDivisionError
      else Inr (foldl add_segment [] (split_calls pts tile_size)))"

text \<open>Consecutive point sequences share their boundary point.\<close>

fun chained :: "'a list list \<Rightarrow> bool" where
  "chained [] = True"
| "chained [s] = True"
| "chained (s # s' # rest) = (last s = hd s' \<and> chained (s' # rest))"

text \<open>The point lies in the tile with the given key.\<close>

definition in_tile :: "real \<Rightarrow> tile \<Rightarrow> point \<Rightarrow> bool" where
  "in_tile tile_size k v = (tile_xy (fst v) (snd v) tile_size = k)"

text \<open>
  The invariant of both loops: the open segment is not empty and lies in the current
  tile; every fragment handed to \<open>add_segment\<close> so far has at least two points, all but
  the last of them in the tile it is keyed to; each fragment starts where the one before
  it ended.
\<close>

definition split_inv :: "real \<Rightarrow> split_state \<Rightarrow> bool" where
  "split_inv tile_size st =
     (current_segment st \<noteq> []
      \<and> (\<forall>v \<in> set (current_segment st). in_tile tile_size (current_tile st) v)
      \<and> (\<forall>c \<in> set (calls st). 2 \<le> length (snd c)
            \<and> (\<forall>v \<in> set (butlast (snd c)). in_tile tile_size (fst c) v))
      \<and> chained (map snd (calls st) @ [current_segment st]))"

subsection \<open>Rings and containment\<close>

definition ring_without_duplicate_closure :: "point list \<Rightarrow> point list" where
  "ring_without_duplicate_closure points =
     (if length points \<ge> 2 \<and> hd points = last points then butlast points else points)"

text \<open>
  The test of one edge in \<open>point_in_polygon\<close>, from \<open>(xi, yi)\<close> to \<open>(xj, yj)\<close>.  The
  \<open>and\<close> is short-circuit: the division is evaluated only when the edge straddles the
  height of the query point, and raises when its divisor is zero.
\<close>

definition edge_intersect :: "point \<Rightarrow> point \<Rightarrow> point \<Rightarrow> py_error + bool" where
  "edge_intersect p vi vj =
     (let x = fst p; y = snd p; xi = fst vi; yi = snd vi; xj = fst vj; yj = snd vj
      in if (yi > y) \<noteq> (yj > y)
         then if yj - yi + 1 / 10 ^ 30 = 0 then Inl ZeroDivisionError
              else Inr (x < (xj - xi) * (y - yi) / (yj - yi + 1 / 10 ^ 30) + xi)
         else Inr False)"

text \<open>The loop \<open>for i in range(n)\<close> with the trailing index \<open>j\<close>.\<close>

fun pip_loop :: "point \<Rightarrow> point list \<Rightarrow> nat list \<Rightarrow> nat \<Rightarrow> bool \<Rightarrow> py_error + bool" where
  "pip_loop p poly [] j inside = Inr inside"
| "pip_loop p poly (i # is) j inside =
     (case edge_intersect p (poly ! i) (poly ! j) of
        Inl e \<Rightarrow> Inl e
      | Inr intersect \<Rightarrow> pip_loop p poly is i (if intersect then \<not> inside else inside))"

definition point_in_polygon :: "point \<Rightarrow> point list \<Rightarrow> py_error + bool" where
  "point_in_polygon p poly =
     (let n = length poly
      in if n < 3 then Inr False else pip_loop p poly [0..<n] (n - 1) False)"

text \<open>The same walk over an explicit list of edges.\<close>

fun crossings :: "point \<Rightarrow> (point \<times> point) list \<Rightarrow> bool \<Rightarrow> py_error + bool" where
  "crossings p [] inside = Inr inside"
| "crossings p (e # es) inside =
     (case edge_intersect p (fst e) (snd e) of
        Inl err \<Rightarrow> Inl err
      | Inr intersect \<Rightarrow> crossings p es (if intersect then \<not> inside else inside))"

subsection \<open>Douglas-Peucker simplification\<close>

definition point_line_distance :: "point \<Rightarrow> point \<Rightarrow> point \<Rightarrow> real" where
  "point_line_distance p a b =
     (let px = fst p; py = snd p; ax = fst a; ay = snd a; bx = fst b; by = snd b;
          dx = bx - ax; dy = by - ay
      in if dx * dx + dy * dy < 1 / 10 ^ 12 then hypot (px - ax) (py - ay)
         else
           let t = ((px - ax) * dx + (py - ay) * dy) / (dx * dx + dy * dy);
               t = (if t < 0 then 0 else if t > 1 then 1 else t);
               cx = ax + t * dx;
               cy = ay + t * dy
           in hypot (px - cx) (py - cy))"

text \<open>
  The inner loop \<open>for i in range(start + 1, end)\<close> over the pair \<open>(max_dist, idx)\<close>, which
  starts at \<open>(-1.0, -1)\<close>.
\<close>

definition farthest_step :: "point list \<Rightarrow> point \<Rightarrow> point \<Rightarrow> real \<times> int \<Rightarrow> nat \<Rightarrow> real \<times> int" where
  "farthest_step pts a b mi i =
     (let d = point_line_distance (pts ! i) a b
      in if d > fst mi then (d, int i) else mi)"

definition farthest :: "point list \<Rightarrow> nat \<Rightarrow> nat \<Rightarrow> real \<times> int" where
  "farthest pts start end =
     foldl (farthest_step pts (pts ! start) (pts ! end)) (- 1, - 1) [start + 1 ..< end]"

text \<open>
  The loop \<open>while stack\<close>.  The head of the list is the top of the stack: \<open>stack.pop()\<close>
  takes the head, and the two \<open>stack.append\<close> calls leave \<open>(idx, end)\<close> on top of
  \<open>(start, idx)\<close>.
\<close>

function dp_loop :: "point list \<Rightarrow> real \<Rightarrow> bool list \<Rightarrow> (nat \<times> nat) list \<Rightarrow> bool list" where
  "dp_loop pts epsilon keep [] = keep"
| "dp_loop pts epsilon keep ((start, end) # stack) =
     (let max_dist = fst (farthest pts start end); idx = snd (farthest pts start end)
      in if max_dist > epsilon \<and> idx \<noteq> - 1
         then dp_loop pts epsilon (keep[nat idx := True])
                ((nat idx, end) # (start, nat idx) # stack)
         else dp_loop pts epsilon keep stack)"
  by pat_completeness auto
termination
proof (relation "measure (\<lambda>(pts, epsilon, keep, stack).
           sum_list (map (\<lambda>(s, e). if e \<le> s then 1 else 2 * (e - s) - 1) stack))")
  show "wf (measure (\<lambda>(pts, epsilon, keep, stack).
           sum_list (map (\<lambda>(s, e). if e \<le> s then 1 else 2 * (e - s) - 1) stack)))"
    by simp
next
  fix pts :: "point list" and epsilon :: real and keep :: "bool list"
    and start "end" :: nat and stack :: "(nat \<times> nat) list" and max_dist :: real and idx :: int
  assume idx: "idx = snd (farthest pts start end)" and c: "epsilon < max_dist \<and> idx \<noteq> - 1"
  have step: "snd (foldl (farthest_step pts a b) mi is) = snd mi
              \<or> snd (foldl (farthest_step pts a b) mi is) \<in> int ` set is" for a b mi "is"
  proof (induction "is" arbitrary: mi)
    case Nil
    then show ?case by simp
  next
    case (Cons i "is")
    from Cons [of "farthest_step pts a b mi i"] show ?case
      by (auto simp: farthest_step_def Let_def split: if_splits)
  qed
  from step [of "pts ! start" "pts ! end" "(- 1, - 1)" "[start + 1 ..< end]"] idx c
  have "idx \<in> int ` {start + 1 ..< end}" by (simp add: farthest_def)
  then have "start < nat idx" "nat idx < end" by auto
  then show "((pts, epsilon, keep[nat idx := True], (nat idx, end) # (start, nat idx) # stack),
              (pts, epsilon, keep, (start, end) # stack))
             \<in> measure (\<lambda>(pts, epsilon, keep, stack).
                  sum_list (map (\<lambda>(s, e). if e \<le> s then 1 else 2 * (e - s) - 1) stack))"
    by simp
next
  fix pts :: "point list" and epsilon :: real and keep :: "bool list"
    and start "end" :: nat and stack :: "(nat \<times> nat) list"
  show "((pts, epsilon, keep, stack), (pts, epsilon, keep, (start, end) # stack))
             \<in> measure (\<lambda>(pts, epsilon, keep, stack).
                  sum_list (map (\<lambda>(s, e). if e \<le> s then 1 else 2 * (e - s) - 1) stack))"
    by auto
qed

definition simplify_douglas_peucker :: "point list \<Rightarrow> real \<Rightarrow> point list" where
  "simplify_douglas_peucker points epsilon =
     (if length points < 4 then points
      else
        let closed = (hd points = last points);
            pts = (if closed then butlast points else points);
            n = length pts
        in if n < 4 then points
           else
             let keep = (replicate n False)[0 := True, n - 1 := True];
                 keep = dp_loop pts epsilon keep [(0, n - 1)];
                 out = map fst (filter snd (zip pts keep))
             in if closed then out @ [hd out] else out)"

subsection \<open>Projection\<close>

definition EARTH_RADIUS_M :: real where
  "EARTH_RADIUS_M = 6378137"

definition radians :: "real \<Rightarrow> real" where
  "radians d = d * pi / 180"

definition lonlat_to_webmercator_m :: "real \<Rightarrow> real \<Rightarrow> point" where
  "lonlat_to_webmercator_m lon lat =
     (let lat = max (min lat 85.05112878) (- 85.05112878);
          x = radians lon * EARTH_RADIUS_M;
          y = ln (tan (pi / 4 + radians lat / 2)) * EARTH_RADIUS_M
      in (x, y))"

subsection \<open>Polygon area\<close>

definition polygon_area :: "point list \<Rightarrow> real" where
  "polygon_area points =
     (if length points < 3 then 0
      else
        let n = length points;
            a = foldl (\<lambda>a i. a + (fst (points ! i) * snd (points ! ((i + 1) mod n))
                                   - fst (points ! ((i + 1) mod n)) * snd (points ! i)))
                  0 [0..<n]
        in \<bar>a\<bar> * 0.5)"

text \<open>
  \<open>max(xs)\<close> and \<open>min(xs)\<close> of a non-empty list; on an empty list they raise
  \<open>ValueError\<close>, which the caller below returns.
\<close>

definition py_max :: "real list \<Rightarrow> real" where
  "py_max xs = foldl max (hd xs) (tl xs)"

definition py_min :: "real list \<Rightarrow> real" where
  "py_min xs = foldl min (hd xs) (tl xs)"

subsection \<open>The driver: configuration and clip filter\<close>

text \<open>
  What \<open>main\<close> derives from its arguments before the category loops: the tile size, the
  projected origin, the clip polygon (if any) and the building thresholds.
\<close>

record run_config =
  tile_size :: real
  origin_x :: real
  origin_y :: real
  clip_poly_abs :: "point list option"
  min_building_area :: real
  max_building_extent :: real
  simplify_meters :: real

text \<open>The extended slice \<open>xs[::step]\<close> for a step of at least 1.\<close>

fun stride :: "nat \<Rightarrow> 'a list \<Rightarrow> 'a list" where
  "stride step [] = []"
| "stride step (x # xs) = x # stride step (drop (step - 1) xs)"

text \<open>The sampling loops: the first sampled point inside the clip polygon answers True.\<close>

fun any_inside :: "run_config \<Rightarrow> point list \<Rightarrow> point list \<Rightarrow> py_error + bool" where
  "any_inside cfg clip [] = Inr False"
| "any_inside cfg clip (p # ps) =
     (case point_in_polygon (fst p + origin_x cfg, snd p + origin_y cfg) clip of
        Inl e \<Rightarrow> Inl e
      | Inr inside \<Rightarrow> if inside then Inr True else any_inside cfg clip ps)"

definition keep_ring_by_clip :: "run_config \<Rightarrow> point list \<Rightarrow> py_error + bool" where
  "keep_ring_by_clip cfg ring_local =
     (case clip_poly_abs cfg of
        None \<Rightarrow> Inr True
      | Some clip \<Rightarrow>
          if ring_local = [] then Inl ZeroDivisionError
          else
            let cx_abs = sum_list (map fst ring_local) / real (length ring_local) + origin_x cfg;
                cy_abs = sum_list (map snd ring_local) / real (length ring_local) + origin_y cfg
            in case point_in_polygon (cx_abs, cy_abs) clip of
                 Inl e \<Rightarrow> Inl e
               | Inr inside \<Rightarrow>
                   if inside then Inr True
                   else any_inside cfg clip (stride (max 1 (length ring_local div 8)) ring_local))"

definition keep_line_by_clip :: "run_config \<Rightarrow> point list \<Rightarrow> py_error + bool" where
  "keep_line_by_clip cfg points_local =
     (case clip_poly_abs cfg of
        None \<Rightarrow> Inr True
      | Some clip \<Rightarrow>
          let step = max 1 (length points_local div 16)
          in any_inside cfg clip (stride step points_local))"

subsection \<open>The driver: fragments handed to the writer\<close>

text \<open>
  The objects passed to \<open>append(category, tx, ty, obj)\<close>: a building with its
  \<open>heightMeters\<close> and \<open>vertices\<close>, a railway with its \<open>widthMeters\<close> and \<open>points\<close>.
\<close>

datatype fragment = Building real "point list" | Railway real "point list"

type_synonym append_call = "string \<times> tile \<times> fragment"

definition project :: "run_config \<Rightarrow> point list \<Rightarrow> point list" where
  "project cfg part =
     map (\<lambda>lonlat. let xy = lonlat_to_webmercator_m (fst lonlat) (snd lonlat)
                    in (fst xy - origin_x cfg, snd xy - origin_y cfg)) part"

definition local_points :: "point \<Rightarrow> point list \<Rightarrow> point list" where
  "local_points center pts = map (\<lambda>p. (fst p - fst center, snd p - snd center)) pts"

text \<open>
  The buildings loop of \<open>main\<close> for one part, from its projected, origin-relative points
  on, on the default path (\<open>--rect-buildings\<close> not given).  The result lists the calls of
  \<open>append\<close>.
\<close>

definition building_ring :: "run_config \<Rightarrow> real \<Rightarrow> point list \<Rightarrow> py_error + append_call list" where
  "building_ring cfg h pts =
     (if polygon_area pts < min_building_area cfg then Inr []
      else if pts = [] then Inl ValueError
      else
        let xs = map fst pts; ys = map snd pts;
            extent_x = py_max xs - py_min xs;
            extent_y = py_max ys - py_min ys;
            max_extent = max extent_x extent_y
        in if max_extent > max_building_extent cfg then Inr []
           else
             let ring = simplify_douglas_peucker pts (simplify_meters cfg);
                 ring = ring_without_duplicate_closure ring
             in if length ring < 3 then Inr []
                else case keep_ring_by_clip cfg ring of
                       Inl e \<Rightarrow> Inl e
                     | Inr keep \<Rightarrow>
                         if \<not> keep then Inr []
                         else if tile_size cfg = 0 then Inl ZeroDivisionError
                         else
                           let cx = sum_list (map fst ring) / real (length ring);
                               cy = sum_list (map snd ring) / real (length ring);
                               t = tile_xy cx cy (tile_size cfg);
                               center = tile_center (fst t) (snd t) (tile_size cfg)
                           in Inr [(''buildings'', t, Building h (local_points center ring))])"

definition building_part :: "run_config \<Rightarrow> real \<Rightarrow> point list \<Rightarrow> py_error + append_call list" where
  "building_part cfg h part =
     (if length part < 3 then Inr [] else building_ring cfg h (project cfg part))"

text \<open>
  The loop over \<open>tile_segments.items()\<close> shared by the line categories: one \<open>append\<close> per
  stored fragment, with the points relative to the centre of its tile.
\<close>

definition line_appends ::
  "string \<Rightarrow> (point list \<Rightarrow> fragment) \<Rightarrow> real \<Rightarrow> (tile \<times> point list list) list \<Rightarrow> append_call list" where
  "line_appends category obj tsize tile_segments =
     concat (map (\<lambda>(t, segments).
        let center = tile_center (fst t) (snd t) tsize
        in map (\<lambda>seg. (category, t, obj (local_points center seg)))
             (filter (\<lambda>seg. \<not> length seg < 2) segments)) tile_segments)"

definition railway_part :: "run_config \<Rightarrow> point list \<Rightarrow> py_error + append_call list" where
  "railway_part cfg part =
     (if length part < 2 then Inr []
      else
        let pts_m = project cfg part
        in case keep_line_by_clip cfg pts_m of
             Inl e \<Rightarrow> Inl e
           | Inr keep \<Rightarrow>
               if \<not> keep then Inr []
               else case split_polyline_by_tiles pts_m (tile_size cfg) of
                      Inl e \<Rightarrow> Inl e
                    | Inr tile_segments \<Rightarrow>
                        Inr (line_appends ''railways'' (Railway 4) (tile_size cfg) tile_segments))"

text \<open>
  A loop over the parts of a record: the calls of \<open>append\<close> made, and the exception that
  ended the loop early, if any.
\<close>

fun for_parts :: "('a \<Rightarrow> py_error + 'b list) \<Rightarrow> 'a list \<Rightarrow> 'b list \<times> py_error option" where
  "for_parts f [] = ([], None)"
| "for_parts f (x # xs) =
     (case f x of
        Inl e \<Rightarrow> ([], Some e)
      | Inr out \<Rightarrow> (let r = for_parts f xs in (out @ fst r, snd r)))"

text \<open>\<open>str.strip()\<close>: ASCII white space removed at both ends.\<close>

definition is_space :: "char \<Rightarrow> bool" where
  "is_space c = (let n = (of_char c :: nat) in (9 \<le> n \<and> n \<le> 13) \<or> (28 \<le> n \<and> n \<le> 32))"

definition strip :: "string \<Rightarrow> string" where
  "strip s = rev (dropWhile is_space (rev (dropWhile is_space s)))"

text \<open>The body of the railways loop of \<open>main\<close> for one pair of records.\<close>

definition railway_record ::
  "run_config \<Rightarrow> point list list \<Rightarrow> dbf_record \<Rightarrow> append_call list \<times> py_error option" where
  "railway_record cfg parts dbf_rec =
     (let rtype = lower (dict_get dbf_rec ''type'' '''')
      in if rtype \<noteq> ''rail'' then ([], None)
         else
           let rname = strip (dict_get dbf_rec ''name'' '''')
           in if rname = [] then ([], None)
              else for_parts (railway_part cfg) parts)"

subsection \<open>The driver: exit status\<close>







subsection \<open>The streaming writer\<close>

text \<open>
  \<open>LruAppendWriter\<close>.  \<open>files\<close> is the \<open>OrderedDict\<close> from path to open file object, oldest
  entry first; an open file object is modelled by the text written to it and not yet
  flushed.  \<open>disk\<close> is the content of every file on disk (empty for a file that does not
  exist): text written to a file object reaches the disk when the object is closed.
  The creation of the directory of a new file (\<open>ensure_dir\<close>) is not part of the model.
\<close>

record lru_writer =
  max_open :: int
  files :: "(string \<times> string) list"
  disk :: "string \<Rightarrow> string"

definition new_writer :: "int \<Rightarrow> (string \<Rightarrow> string) \<Rightarrow> lru_writer" where
  "new_writer m d = \<lparr>max_open = m, files = [], disk = d\<rparr>"

text \<open>\<open>OrderedDict.move_to_end(path)\<close>\<close>

definition move_to_end :: "'k \<Rightarrow> ('k \<times> 'v) list \<Rightarrow> ('k \<times> 'v) list" where
  "move_to_end k d = filter (\<lambda>e. fst e \<noteq> k) d @ filter (\<lambda>e. fst e = k) d"

text \<open>\<open>f.write(data)\<close> on the file object stored under \<open>path\<close>.\<close>

definition write_to :: "string \<Rightarrow> string \<Rightarrow> (string \<times> string) list \<Rightarrow> (string \<times> string) list" where
  "write_to path data d = map (\<lambda>e. if fst e = path then (fst e, snd e @ data) else e) d"

text \<open>\<open>old_file.close()\<close>: the pending text is appended to the file on disk.\<close>

definition close_file :: "(string \<Rightarrow> string) \<Rightarrow> string \<times> string \<Rightarrow> (string \<Rightarrow> string)" where
  "close_file d e = d(fst e := d (fst e) @ snd e)"

definition append_line :: "string \<Rightarrow> string \<Rightarrow> lru_writer \<Rightarrow> lru_writer" where
  "append_line path line w =
     (let opened = (case map_of (files w) path of
                      None \<Rightarrow> files w @ [(path, [])]
                    | Some f \<Rightarrow> move_to_end path (files w));
          written = write_to path [CHR 0x0A] (write_to path line opened)
      in if int (length written) > max_open w
         then w\<lparr>files := tl written, disk := close_file (disk w) (hd written)\<rparr>
         else w\<lparr>files := written\<rparr>)"

definition close_writer :: "lru_writer \<Rightarrow> lru_writer" where
  "close_writer w = w\<lparr>files := [], disk := foldl close_file (disk w) (files w)\<rparr>"

text \<open>A run of \<open>append_line\<close> calls, given as (path, line) pairs.\<close>

definition append_lines :: "(string \<times> string) list \<Rightarrow> lru_writer \<Rightarrow> lru_writer" where
  "append_lines ops w = foldl (\<lambda>w op. append_line (fst op) (snd op) w) w ops"

text \<open>The text of a file as a reader sees it once everything pending is flushed.\<close>

definition contents :: "lru_writer \<Rightarrow> string \<Rightarrow> string" where
  "contents w path = disk w path @ (case map_of (files w) path of None \<Rightarrow> [] | Some f \<Rightarrow> f)"

text \<open>All lines written to a path by a run, in order, each with its newline.\<close>

definition lines_of :: "string \<Rightarrow> (string \<times> string) list \<Rightarrow> string" where
  "lines_of path ops = concat (map (\<lambda>op. snd op @ [CHR 0x0A]) (filter (\<lambda>op. fst op = path) ops))"

text \<open>The last \<open>n\<close> elements of a list.\<close>

definition most_recent :: "nat \<Rightarrow> 'a list \<Rightarrow> 'a list" where
  "most_recent n xs = drop (length xs - n) xs"

subsection \<open>The binary vector decoder\<close>

text \<open>
  A file is the list of its bytes.  Integers are decoded to \<open>int\<close>; a double is kept as
  its 64-bit IEEE-754 pattern.
\<close>

type_synonym byte = "8 word"
type_synonym float64 = "64 word"

fun le_nat :: "byte list \<Rightarrow> nat" where
  "le_nat [] = 0"
| "le_nat (b # bs) = unat b + 256 * le_nat bs"

definition to_signed32 :: "nat \<Rightarrow> int" where
  "to_signed32 n = (if n < 2 ^ 31 then int n else int n - 2 ^ 32)"

text \<open>\<open>struct.unpack("<i", bs)\<close> and \<open>struct.unpack(">i", bs)\<close> on 4 bytes.\<close>

definition le_i32 :: "byte list \<Rightarrow> int" where
  "le_i32 bs = to_signed32 (le_nat bs)"

definition be_i32 :: "byte list \<Rightarrow> int" where
  "be_i32 bs = to_signed32 (le_nat (rev bs))"

text \<open>\<open>struct.unpack("<d", bs)\<close> on 8 bytes.\<close>

definition le_f64 :: "byte list \<Rightarrow> float64" where
  "le_f64 bs = of_nat (le_nat bs)"

text \<open>
  The slice \<open>xs[i:j]\<close>: a negative bound counts from the end, and both bounds are clamped
  to the list.
\<close>

definition slice_bound :: "int \<Rightarrow> nat \<Rightarrow> nat" where
  "slice_bound i n = (if i < 0 then nat (max 0 (int n + i)) else min (nat i) n)"

definition py_slice :: "'a list \<Rightarrow> int \<Rightarrow> int \<Rightarrow> 'a list" where
  "py_slice xs i j =
     (let a = slice_bound i (length xs); b = slice_bound j (length xs)
      in take (b - a) (drop a xs))"

text \<open>
  \<open>f.read(n)\<close> on the rest of the stream: the bytes read, and the stream after them.  A
  negative \<open>n\<close> reads to the end.
\<close>

definition read_bytes :: "int \<Rightarrow> byte list \<Rightarrow> byte list" where
  "read_bytes n stream = (if n < 0 then stream else take (nat n) stream)"

definition after_read :: "int \<Rightarrow> byte list \<Rightarrow> byte list" where
  "after_read n stream = (if n < 0 then [] else drop (nat n) stream)"

record ShpRecord =
  shape_type :: int
  parts :: "(float64 \<times> float64) list list"

text \<open>The 4-byte groups of \<open>struct.unpack("<" + "i" * num_parts, ...)\<close>.\<close>

fun chunks4 :: "'a list \<Rightarrow> 'a list list" where
  "chunks4 (a # b # c # d # rest) = [a, b, c, d] # chunks4 rest"
| "chunks4 rest = []"

text \<open>
  The loop \<open>for i in range(num_points)\<close>: it stops at the first point that does not fit
  in the content; \<open>struct.unpack("<2d", ...)\<close> raises unless it gets 16 bytes.
\<close>

fun read_points :: "byte list \<Rightarrow> int \<Rightarrow> nat list \<Rightarrow> py_error + (float64 \<times> float64) list" where
  "read_points content points_idx [] = Inr []"
| "read_points content points_idx (i # is) =
     (let off = points_idx + int i * 16
      in if off + 16 > int (length content) then Inr []
         else
           let raw = py_slice content off (off + 16)
           in if length raw \<noteq> 16 then Inl StructError
              else case read_points content points_idx is of
                     Inl e \<Rightarrow> Inl e
                   | Inr points \<Rightarrow> Inr ((le_f64 (take 8 raw), le_f64 (drop 8 raw)) # points))"

text \<open>
  The loop \<open>for p in range(len(part_starts))\<close>: each part is the slice of the points from
  its start to the start of the next part, and is kept when it has at least 2 points.
\<close>

definition slice_parts :: "int list \<Rightarrow> 'a list \<Rightarrow> 'a list list" where
  "slice_parts part_starts points =
     filter (\<lambda>seg. length seg \<ge> 2)
       (map (\<lambda>p. let start = part_starts ! p;
                      end = (if p + 1 < length part_starts then part_starts ! (p + 1)
                             else int (length points))
                  in py_slice points start end)
          [0..<length part_starts])"

text \<open>
  The body of the record loop after the content is read: \<open>Inr None\<close> for a record that
  is skipped (\<open>continue\<close>), \<open>Inr (Some r)\<close> for a record that is yielded.
\<close>

definition decode_record :: "byte list \<Rightarrow> py_error + ShpRecord option" where
  "decode_record content =
     (if length content < 4 then Inr None
      else
        let shape_type = le_i32 (py_slice content 0 4)
        in if shape_type = 0 then Inr None
           else if shape_type \<notin> {3, 5, 13, 15} then Inr None
           else if length content < 44 then Inr None
           else
             let num_parts = le_i32 (py_slice content 36 40);
                 num_points = le_i32 (py_slice content 40 44);
                 parts_idx = 44;
                 points_idx = parts_idx + 4 * num_parts
             in if points_idx > int (length content) then Inr None
                else
                  let part_starts =
                        (if num_parts > 0
                         then map le_i32 (chunks4 (py_slice content parts_idx points_idx))
                         else [0])
                  in case read_points content points_idx [0..<nat num_points] of
                       Inl e \<Rightarrow> Inl e
                     | Inr points \<Rightarrow>
                         Inr (Some \<lparr>shape_type = shape_type,
                                     parts = slice_parts part_starts points\<rparr>))"

text \<open>
  The record loop \<open>while True\<close> on the stream after the file header: the records yielded,
  and the exception that ended the generator, if any.
\<close>

function iter_records :: "byte list \<Rightarrow> ShpRecord list \<times> py_error option" where
  "iter_records stream =
     (let rec_header = read_bytes 8 stream
      in if length rec_header \<noteq> 8 then ([], None)
         else
           let content_len_words = be_i32 (py_slice rec_header 4 8);
               content_len_bytes = content_len_words * 2;
               content = read_bytes content_len_bytes (after_read 8 stream)
           in if int (length content) \<noteq> content_len_bytes then ([], None)
              else case decode_record content of
                     Inl e \<Rightarrow> ([], Some e)
                   | Inr None \<Rightarrow> iter_records (after_read content_len_bytes (after_read 8 stream))
                   | Inr (Some r) \<Rightarrow>
                       (let out = iter_records (after_read content_len_bytes (after_read 8 stream))
                        in (r # fst out, snd out)))"
  by pat_completeness auto
termination
  by (relation "measure length") (auto simp: read_bytes_def after_read_def split: if_splits)

definition iter_shp_records :: "byte list \<Rightarrow> ShpRecord list \<times> py_error option" where
  "iter_shp_records file =
     (let header = read_bytes 100 file
      in if length header \<noteq> 100 then ([], Some ValueError)
         else iter_records (after_read 100 file))"

text \<open>
  A record content of 80 bytes: shape type 5 (Polygon), a bounding box, 1 part, 2 points,
  the part start 0, and the two points (0.0, 0.0) and (1.0, 0.0); and a file made of a
  100-byte header and that record (number 1, content length 40 words).
\<close>

definition polygon_content :: "byte list" where
  "polygon_content = [5, 0, 0, 0] @ replicate 32 0 @ [1, 0, 0, 0, 2, 0, 0, 0, 0, 0, 0, 0]
     @ replicate 16 0 @ [0, 0, 0, 0, 0, 0, 240, 63] @ replicate 8 0"

definition polygon_file :: "byte list" where
  "polygon_file = replicate 100 0 @ [0, 0, 0, 1, 0, 0, 0, 40] @ polygon_content"

section \<open>Properties\<close>

subsection \<open>Building heights\<close>

lemma lower_house: "lower ''House'' = ''house''"
  by (simp add: lower_def lower_char_def)




subsection \<open>Splitting polylines\<close>

lemma chained_snoc:
  "chained (xs @ [s]) = (chained xs \<and> (xs = [] \<or> last (last xs) = hd s))"
  by (induction xs rule: chained.induct) auto

lemma chained_append_left: "chained (xs @ ys) \<Longrightarrow> chained xs"
proof (induction ys rule: rev_induct)
  case Nil then show ?case by simp
next
  case (snoc y ys)
  then show ?case using chained_snoc [of "xs @ ys" y] by simp
qed

lemma split_inv_cut:
  assumes "split_inv ts st" "in_tile ts k p"
  shows "split_inv ts (st\<lparr>calls := calls st @ [(current_tile st, current_segment st @ [p])],
                           current_segment := [p], current_tile := k\<rparr>)"
proof -
  let ?cs = "current_segment st" and ?A = "map snd (calls st)"
  from assms(1) have ne: "?cs \<noteq> []" and ch: "chained (?A @ [?cs])"
    by (simp_all add: split_inv_def)
  from ne have len: "2 \<le> length (?cs @ [p])" by (cases ?cs) simp_all
  from ne have hd: "hd (?cs @ [p]) = hd ?cs" by simp
  from ch hd have ch1: "chained (?A @ [?cs @ [p]])" by (simp add: chained_snoc)
  have "chained ((?A @ [?cs @ [p]]) @ [[p]])"
    unfolding chained_snoc [of "?A @ [?cs @ [p]]"] using ch1 by simp
  then have ch2: "chained (map snd (calls st @ [(current_tile st, ?cs @ [p])]) @ [[p]])"
    by simp
  show ?thesis
    unfolding split_inv_def using assms len ch2
    by (auto simp: split_inv_def butlast_append)
qed

lemma split_inv_extend:
  assumes "split_inv ts st" "in_tile ts (current_tile st) p"
  shows "split_inv ts (st\<lparr>current_segment := current_segment st @ [p]\<rparr>)"
  using assms
  by (auto simp: split_inv_def chained_snoc)

lemma split_inv_interp_step:
  "split_inv ts st \<Longrightarrow> split_inv ts (interp_step ts a b n st i)"
  unfolding interp_step_def Let_def
  by (auto intro!: split_inv_cut simp: in_tile_def)

lemma split_inv_interp_loop:
  "split_inv ts st \<Longrightarrow> split_inv ts (foldl (interp_step ts a b n) st is)"
  by (induction "is" arbitrary: st) (auto simp: split_inv_interp_step)

lemma split_inv_visit_point:
  assumes "split_inv ts st"
  shows "split_inv ts (visit_point ts st pp)"
proof -
  let ?ct = "tile_xy (fst (snd pp)) (snd (snd pp)) ts"
  have p: "in_tile ts ?ct (snd pp)" by (simp add: in_tile_def)
  show ?thesis
    unfolding visit_point_def Let_def
    using assms p
    by (auto intro!: split_inv_cut split_inv_extend split_inv_interp_loop simp: in_tile_def)
qed

lemma split_inv_loop:
  "split_inv ts st \<Longrightarrow> split_inv ts (foldl (visit_point ts) st pps)"
  by (induction pps arbitrary: st) (auto simp: split_inv_visit_point)

lemma split_inv_init:
  "split_inv ts \<lparr>calls = [], current_segment = [p],
                 current_tile = tile_xy (fst p) (snd p) ts\<rparr>"
  by (simp add: split_inv_def in_tile_def)


lemma emitted_fragments_eq:
  "\<exists>st. split_inv ts st \<and> split_calls pts ts = calls st @ [(current_tile st, current_segment st)]
     \<and> emitted_fragments pts ts =
         calls st @ (if 2 \<le> length (current_segment st)
                     then [(current_tile st, current_segment st)] else [])"
proof -
  let ?st = "foldl (visit_point ts)
           \<lparr>calls = [], current_segment = [hd pts],
              current_tile = tile_xy (fst (hd pts)) (snd (hd pts)) ts\<rparr> (zip pts (tl pts))"
  have inv: "split_inv ts ?st" by (rule split_inv_loop [OF split_inv_init])
  have sc: "split_calls pts ts = calls ?st @ [(current_tile ?st, current_segment ?st)]"
    by (simp add: split_calls_def Let_def)
  from inv have "filter (\<lambda>c. 2 \<le> length (snd c)) (calls ?st) = calls ?st"
    by (simp add: split_inv_def)
  then have "emitted_fragments pts ts =
         calls ?st @ (if 2 \<le> length (current_segment ?st)
                     then [(current_tile ?st, current_segment ?st)] else [])"
    by (simp add: emitted_fragments_def sc)
  with inv sc show ?thesis by blast
qed

lemma split_calls_butlast_in_tile:
  assumes "c \<in> set (split_calls pts ts)" "v \<in> set (butlast (snd c))"
  shows "in_tile ts (fst c) v"
proof -
  obtain st where inv: "split_inv ts st"
    and sc: "split_calls pts ts = calls st @ [(current_tile st, current_segment st)]"
    using emitted_fragments_eq by blast
  from assms(1) sc have "c \<in> set (calls st) \<or> c = (current_tile st, current_segment st)"
    by auto
  then show ?thesis
  proof
    assume "c \<in> set (calls st)"
    with inv assms(2) show ?thesis by (simp add: split_inv_def)
  next
    assume c: "c = (current_tile st, current_segment st)"
    from assms(2) have "v \<in> set (snd c)" by (rule in_set_butlastD)
    with c have "v \<in> set (current_segment st)" and "fst c = current_tile st" by simp_all
    with inv show ?thesis by (simp add: split_inv_def)
  qed
qed

lemma chained_emitted: "chained (map snd (emitted_fragments pts ts))"
proof -
  obtain st where inv: "split_inv ts st"
    and em: "emitted_fragments pts ts =
         calls st @ (if 2 \<le> length (current_segment st)
                     then [(current_tile st, current_segment st)] else [])"
    using emitted_fragments_eq by blast
  from inv have ch: "chained (map snd (calls st) @ [current_segment st])"
    by (simp add: split_inv_def)
  show ?thesis
  proof (cases "2 \<le> length (current_segment st)")
    case True
    with em ch show ?thesis by simp
  next
    case False
    with em chained_append_left [OF ch] show ?thesis by simp
  qed
qed

lemma map_of_dict_append:
  "map_of (dict_append k v d) k' =
     (if k' = k then Some (dict_get (map_of d) k [] @ [v]) else map_of d k')"
  by (induction k v d rule: dict_append.induct) (auto simp: dict_get_def)

lemma keys_dict_append:
  "map fst (dict_append k v d) = (if k \<in> fst ` set d then map fst d else map fst d @ [k])"
  by (induction k v d rule: dict_append.induct) (auto simp: image_iff)

lemma distinct_dict_append:
  "distinct (map fst d) \<Longrightarrow> distinct (map fst (dict_append k v d))"
  by (simp add: keys_dict_append)

lemma distinct_add_segment:
  "distinct (map fst d) \<Longrightarrow> distinct (map fst (add_segment d c))"
  by (simp add: add_segment_def distinct_dict_append)

lemma distinct_add_segments:
  "distinct (map fst d) \<Longrightarrow> distinct (map fst (foldl add_segment d cs))"
  by (induction cs arbitrary: d) (simp_all add: distinct_add_segment)

lemma map_of_add_segments:
  "map_of (foldl add_segment d cs) k =
     (let new = map snd (filter (\<lambda>c. fst c = k) (filter (\<lambda>c. 2 \<le> length (snd c)) cs))
      in if new = [] then map_of d k else Some (dict_get (map_of d) k [] @ new))"
proof (induction cs arbitrary: d)
  case Nil
  then show ?case by simp
next
  case (Cons c cs)
  show ?case
    unfolding foldl_Cons Cons.IH
    by (auto simp: add_segment_def map_of_dict_append Let_def dict_get_def split: option.splits)
qed


lemma chained_nth:
  "chained xs \<Longrightarrow> Suc i < length xs \<Longrightarrow> last (xs ! i) = hd (xs ! Suc i)"
proof (induction xs arbitrary: i rule: chained.induct)
  case (3 s s' rest)
  then show ?case by (cases i) simp_all
qed simp_all

lemma emitted_length: "c \<in> set (emitted_fragments pts ts) \<Longrightarrow> 2 \<le> length (snd c)"
  by (simp add: emitted_fragments_def)

lemma stored_fragments:
  assumes "split_polyline_by_tiles pts ts = Inr result"
  shows "distinct (map fst result)"
    and "2 \<le> length pts \<Longrightarrow> map_of result k =
           (let fs = map snd (filter (\<lambda>c. fst c = k) (emitted_fragments pts ts))
            in if fs = [] then None else Some fs)"
proof -
  from assms have r: "length pts < 2 \<and> result = []
      \<or> 2 \<le> length pts \<and> result = foldl add_segment [] (split_calls pts ts)"
    by (auto simp: split_polyline_by_tiles_def split: if_splits)
  have "distinct (map fst (foldl add_segment [] (split_calls pts ts)))"
    by (rule distinct_add_segments) simp
  with r show "distinct (map fst result)" by auto
  assume "2 \<le> length pts"
  with r have "result = foldl add_segment [] (split_calls pts ts)" by auto
  then show "map_of result k =
           (let fs = map snd (filter (\<lambda>c. fst c = k) (emitted_fragments pts ts))
            in if fs = [] then None else Some fs)"
    by (simp add: map_of_add_segments emitted_fragments_def dict_get_def Let_def)
qed

lemma stored_fragment_emitted:
  assumes "split_polyline_by_tiles pts ts = Inr result" "(k, frags) \<in> set result"
    "frag \<in> set frags"
  shows "(k, frag) \<in> set (emitted_fragments pts ts)"
proof -
  from assms(1,2) have len: "2 \<le> length pts"
    by (auto simp: split_polyline_by_tiles_def split: if_splits)
  from stored_fragments(1) [OF assms(1)] assms(2) have "map_of result k = Some frags"
    by simp
  with stored_fragments(2) [OF assms(1) len, of k]
  have "frags = map snd (filter (\<lambda>c. fst c = k) (emitted_fragments pts ts))"
    by (simp add: Let_def split: if_splits)
  with assms(3) show ?thesis by auto
qed

lemma hypot_0: "hypot x 0 = \<bar>x\<bar>"
  by (simp add: hypot_def)

lemma upto_1_6: "[1..6] = [1, 2, 3, 4, 5, 6 :: int]"
  by (simp add: upto_rec1)

lemma split_calls_short:
  "split_calls [(900, 0), (1100, 0)] 1000 = [((0, 0), [(900, 0), (1100, 0)]), ((1, 0), [(1100, 0)])]"
  by (simp add: split_calls_def visit_point_def tile_xy_def hypot_0 Let_def)

lemma split_calls_road:
  "split_calls [(0, 0), (3000, 0)] 1000 =
     [((0, 0), [(0, 0), (9000 / 7, 0)]), ((1, 0), [(9000 / 7, 0), (15000 / 7, 0)]),
      ((2, 0), [(15000 / 7, 0), (3000, 0)]), ((3, 0), [(3000, 0)])]"
  by (simp add: split_calls_def visit_point_def tile_xy_def hypot_0 py_int_def
      interp_step_def interpolate_point_def Let_def upto_1_6)

text \<open>
  C1 (as stated): every vertex of a fragment stored under a key lies in that tile.  For the
  road from (900, 0) to (1100, 0) and tile size 1000 the one fragment is stored under
  (0, 0), and its last vertex (1100, 0) lies in tile (1, 0).
\<close>

theorem C1_fragment_vertex_outside_tile_counterexample:
  "split_polyline_by_tiles [(900, 0), (1100, 0)] 1000 = Inr [((0, 0), [[(900, 0), (1100, 0)]])]
   \<and> tile_xy 1100 0 1000 = (1, 0) \<and> tile_xy 1100 0 1000 \<noteq> (0, 0)"
  by (simp add: split_polyline_by_tiles_def split_calls_short add_segment_def tile_xy_def)

text \<open>
  C1 (amended): every stored fragment has at least two points and all of its vertices but
  the last lie in the tile it is keyed to (the last one is the point where the line was
  cut, or the end of the line); the straight 3000-meter road from (0, 0) to (3000, 0)
  with tile size 1000 gives exactly three fragments, under (0, 0), (1, 0) and (2, 0).
\<close>

theorem C1_fragments_in_tile_but_last:
  "(split_polyline_by_tiles pts tsize = Inr result \<longrightarrow> (k, frags) \<in> set result
      \<longrightarrow> frag \<in> set frags
      \<longrightarrow> 2 \<le> length frag \<and> (\<forall>v \<in> set (butlast frag). tile_xy (fst v) (snd v) tsize = k))
   \<and> split_polyline_by_tiles [(0, 0), (3000, 0)] 1000 =
       Inr [((0, 0), [[(0, 0), (9000 / 7, 0)]]), ((1, 0), [[(9000 / 7, 0), (15000 / 7, 0)]]),
            ((2, 0), [[(15000 / 7, 0), (3000, 0)]])]"
proof (intro conjI impI)
  assume a: "split_polyline_by_tiles pts tsize = Inr result" "(k, frags) \<in> set result"
    "frag \<in> set frags"
  then have em: "(k, frag) \<in> set (emitted_fragments pts tsize)"
    by (rule stored_fragment_emitted)
  then show "2 \<le> length frag" using emitted_length by fastforce
  from em have sc: "(k, frag) \<in> set (split_calls pts tsize)"
    by (simp add: emitted_fragments_def)
  show "\<forall>v \<in> set (butlast frag). tile_xy (fst v) (snd v) tsize = k"
    using split_calls_butlast_in_tile [OF sc] by (simp add: in_tile_def)
next
  show "split_polyline_by_tiles [(0, 0), (3000, 0)] 1000 =
       Inr [((0, 0), [[(0, 0), (9000 / 7, 0)]]), ((1, 0), [[(9000 / 7, 0), (15000 / 7, 0)]]),
            ((2, 0), [[(15000 / 7, 0), (3000, 0)]])]"
    by (simp add: split_polyline_by_tiles_def split_calls_road add_segment_def)
qed

theorem C1_fragments_in_tile_but_last_witness:
  "split_polyline_by_tiles [(900, 0), (1100, 0)] 1000 = Inr [((0, 0), [[(900, 0), (1100, 0)]])]
   \<and> ((0, 0), [[(900, 0), (1100, 0)]]) \<in> set [((0 :: int, 0 :: int), [[(900 :: real, 0 :: real), (1100, 0)]])]
   \<and> [(900, 0), (1100, 0)] \<in> set [[(900 :: real, 0 :: real), (1100, 0)]]
   \<and> tile_xy 900 0 1000 = (0, 0)"
proof -
  have s: "split_polyline_by_tiles [(900, 0), (1100, 0)] 1000
             = Inr [((0, 0), [[(900, 0), (1100, 0)]])]"
    by (simp add: split_polyline_by_tiles_def split_calls_short add_segment_def)
  from C1_fragments_in_tile_but_last [of "[(900, 0), (1100, 0)]" 1000
      "[((0, 0), [[(900, 0), (1100, 0)]])]" "(0, 0)" "[[(900, 0), (1100, 0)]]"
      "[(900, 0), (1100, 0)]"] s
  show ?thesis by simp
qed

text \<open>
  C2: any two consecutive fragments, in the order of emission, share their boundary point:
  the last point of the earlier one is the first point of the next.  The fragments stored
  in the result under a key are the emitted fragments of that key, in that order.
\<close>

theorem C2_consecutive_fragments_share_endpoint:
  "(Suc i < length (emitted_fragments pts tsize) \<longrightarrow>
      snd (emitted_fragments pts tsize ! i) \<noteq> []
      \<and> snd (emitted_fragments pts tsize ! Suc i) \<noteq> []
      \<and> last (snd (emitted_fragments pts tsize ! i))
          = hd (snd (emitted_fragments pts tsize ! Suc i)))
   \<and> (split_polyline_by_tiles pts tsize = Inr result \<longrightarrow> 2 \<le> length pts \<longrightarrow>
        distinct (map fst result)
        \<and> map_of result k =
           (let fs = map snd (filter (\<lambda>c. fst c = k) (emitted_fragments pts tsize))
            in if fs = [] then None else Some fs))"
proof (intro conjI impI)
  let ?em = "emitted_fragments pts tsize"
  assume i: "Suc i < length ?em"
  then have "?em ! i \<in> set ?em" "?em ! Suc i \<in> set ?em" by simp_all
  then have "2 \<le> length (snd (?em ! i))" "2 \<le> length (snd (?em ! Suc i))"
    by (simp_all add: emitted_length)
  then show "snd (?em ! i) \<noteq> []" "snd (?em ! Suc i) \<noteq> []" by auto
  from chained_nth [OF chained_emitted, of i pts tsize] i
  show "last (snd (?em ! i)) = hd (snd (?em ! Suc i))" by simp
next
  assume r: "split_polyline_by_tiles pts tsize = Inr result" and len: "2 \<le> length pts"
  from r show "distinct (map fst result)" by (rule stored_fragments(1))
  from r len show "map_of result k =
           (let fs = map snd (filter (\<lambda>c. fst c = k) (emitted_fragments pts tsize))
            in if fs = [] then None else Some fs)"
    by (rule stored_fragments(2))
qed

lemma emitted_road:
  "emitted_fragments [(0, 0), (3000, 0)] 1000 =
     [((0, 0), [(0, 0), (9000 / 7, 0)]), ((1, 0), [(9000 / 7, 0), (15000 / 7, 0)]),
      ((2, 0), [(15000 / 7, 0), (3000, 0)])]"
  by (simp add: emitted_fragments_def split_calls_road)

theorem C2_consecutive_fragments_share_endpoint_witness:
  "Suc 0 < length (emitted_fragments [(0, 0), (3000, 0)] 1000)
   \<and> last (snd (emitted_fragments [(0, 0), (3000, 0)] 1000 ! 0)) = (9000 / 7, 0)
   \<and> hd (snd (emitted_fragments [(0, 0), (3000, 0)] 1000 ! Suc 0)) = (9000 / 7, 0)
   \<and> 2 \<le> length [(0 :: real, 0 :: real), (3000, 0)]
   \<and> map_of (projr (split_polyline_by_tiles [(0, 0), (3000, 0)] 1000)) (1, 0)
        = Some [[(9000 / 7, 0), (15000 / 7, 0)]]"
proof -
  have s: "split_polyline_by_tiles [(0, 0), (3000, 0)] 1000 =
       Inr [((0, 0), [[(0, 0), (9000 / 7, 0)]]), ((1, 0), [[(9000 / 7, 0), (15000 / 7, 0)]]),
            ((2, 0), [[(15000 / 7, 0), (3000, 0)]])]"
    by (simp add: split_polyline_by_tiles_def split_calls_road add_segment_def)
  from C2_consecutive_fragments_share_endpoint [of 0 "[(0, 0), (3000, 0)]" 1000
      "projr (split_polyline_by_tiles [(0, 0), (3000, 0)] 1000)" "(1, 0)"]
  show ?thesis by (simp add: emitted_road s)
qed

subsection \<open>Point in polygon\<close>

lemma pip_loop_crossings:
  "pip_loop p poly is j inside
     = crossings p (zip (map (nth poly) is) (map (nth poly) (j # is))) inside"
  by (induction "is" arbitrary: j inside) (auto split: sum.splits)

lemma point_in_polygon_crossings:
  assumes "3 \<le> length poly"
  shows "point_in_polygon p poly = crossings p (zip poly (last poly # poly)) False"
proof -
  from assms have "poly \<noteq> []" by auto
  then have "poly ! (length poly - 1) = last poly" by (simp add: last_conv_nth)
  with assms show ?thesis
    by (simp add: point_in_polygon_def pip_loop_crossings map_nth)
qed

lemma edge_intersect_error: "edge_intersect p a b = Inl e \<Longrightarrow> e = ZeroDivisionError"
  by (auto simp: edge_intersect_def Let_def split: if_splits)

lemma edge_intersect_same: "edge_intersect p a a = Inr False"
  by (simp add: edge_intersect_def)

lemma crossings_parity:
  "crossings p es inside =
     (if \<exists>e \<in> set es. edge_intersect p (fst e) (snd e) = Inl ZeroDivisionError
      then Inl ZeroDivisionError
      else Inr (inside \<noteq> odd (length (filter (\<lambda>e. edge_intersect p (fst e) (snd e) = Inr True) es))))"
proof (induction es arbitrary: inside)
  case Nil
  then show ?case by simp
next
  case (Cons e es)
  show ?case
  proof (cases "edge_intersect p (fst e) (snd e)")
    case (Inl err)
    then have "edge_intersect p (fst e) (snd e) = Inl ZeroDivisionError"
      using edge_intersect_error by blast
    then show ?thesis by simp
  next
    case (Inr c)
    then show ?thesis by (cases c) (auto simp: Cons.IH)
  qed
qed

lemma crossings_rotate: "crossings p (es @ [e]) inside = crossings p (e # es) inside"
  unfolding crossings_parity by simp

lemma zip_shift_snoc:
  "zip (xs @ [a]) (b # xs @ [c]) = zip xs (b # xs) @ [(a, last (b # xs))]"
  by (induction xs arbitrary: b) simp_all

lemma closed_ring_edges:
  assumes "mid \<noteq> []"
  shows "crossings p (zip (v # mid @ [v]) (last (v # mid @ [v]) # v # mid @ [v])) False
       = crossings p (zip (v # mid) (last (v # mid) # v # mid)) False"
proof -
  have "zip (v # mid @ [v]) (last (v # mid @ [v]) # v # mid @ [v])
          = (v, v) # (zip mid (v # mid) @ [(v, last (v # mid))])"
    by (simp add: zip_shift_snoc)
  then have "crossings p (zip (v # mid @ [v]) (last (v # mid @ [v]) # v # mid @ [v])) False
          = crossings p (zip mid (v # mid) @ [(v, last (v # mid))]) False"
    by (simp add: edge_intersect_same)
  also have "\<dots> = crossings p ((v, last (v # mid)) # zip mid (v # mid)) False"
    by (rule crossings_rotate)
  also have "\<dots> = crossings p (zip (v # mid) (last (v # mid) # v # mid)) False"
    by simp
  finally show ?thesis .
qed

lemma closed_ring_shape:
  assumes "2 \<le> length ring" "hd ring = last ring"
  shows "ring = hd ring # butlast (tl ring) @ [hd ring]"
proof -
  from assms(1) obtain v rest where r: "ring = v # rest"
    by (cases ring) auto
  with assms(1) have ne: "rest \<noteq> []" by auto
  from ne have "rest = butlast rest @ [last rest]" by simp
  moreover from r ne assms(2) have "last rest = v" by simp
  ultimately show ?thesis using r by simp
qed

text \<open>
  C9 (as stated): containment is the same with and without the repeated closing vertex.
  For the closed ring \<open>a, b, a\<close> with \<open>a = (0, 0)\<close>, \<open>b = (1, 2e-30)\<close> and the query
  point \<open>(-0.5, 0)\<close> the test answers True, and for the ring \<open>a, b\<close> without the closure
  it answers False (fewer than 3 vertices).
\<close>

theorem C9_three_point_ring_counterexample:
  "hd [(0, 0), (1, 2 / 10 ^ 30), (0 :: real, 0 :: real)] = last [(0, 0), (1, 2 / 10 ^ 30), (0, 0)]
   \<and> point_in_polygon (- 1 / 2, 0) [(0, 0), (1, 2 / 10 ^ 30), (0, 0)] = Inr True
   \<and> point_in_polygon (- 1 / 2, 0)
        (ring_without_duplicate_closure [(0, 0), (1, 2 / 10 ^ 30), (0, 0)]) = Inr False"
  by (simp add: point_in_polygon_def ring_without_duplicate_closure_def edge_intersect_def
      upt_rec_numeral Let_def)

text \<open>
  C9 (amended): for every query point and every ring whose first point equals its last
  and that does not have exactly 3 points, the test gives the same result (the same
  value, or the same error) with and without the repeated closing vertex.
\<close>

theorem C9_closure_invariance:
  assumes "hd ring = last ring" "length ring \<noteq> 3"
  shows "point_in_polygon p (ring_without_duplicate_closure ring) = point_in_polygon p ring"
proof (cases "length ring < 3")
  case True
  then show ?thesis
    by (auto simp: point_in_polygon_def ring_without_duplicate_closure_def Let_def)
next
  case False
  with assms(2) have len: "4 \<le> length ring" by simp
  define v where "v = hd ring"
  define mid where "mid = butlast (tl ring)"
  from len assms(1) have shape: "ring = v # mid @ [v]"
    unfolding v_def mid_def by (intro closed_ring_shape) simp_all
  have "length ring = length mid + 2" by (subst shape) simp
  with len have mid: "2 \<le> length mid" by simp
  then have ne: "mid \<noteq> []" by auto
  have rw: "ring_without_duplicate_closure (v # mid @ [v]) = v # mid"
    by (simp add: ring_without_duplicate_closure_def butlast_append)
  have "point_in_polygon p (v # mid) = crossings p (zip (v # mid) (last (v # mid) # v # mid)) False"
    using mid by (intro point_in_polygon_crossings) simp
  moreover
  have "point_in_polygon p (v # mid @ [v])
          = crossings p (zip (v # mid @ [v]) (last (v # mid @ [v]) # v # mid @ [v])) False"
    using mid by (intro point_in_polygon_crossings) simp
  ultimately show ?thesis
    using closed_ring_edges [OF ne, of p v] shape rw by simp
qed

theorem C9_closure_invariance_witness:
  "hd [(0, 0), (4, 0), (4, 4), (0, 4), (0 :: real, 0 :: real)] = last [(0, 0), (4, 0), (4, 4), (0, 4), (0, 0)]
   \<and> length [(0, 0), (4, 0), (4, 4), (0, 4), (0 :: real, 0 :: real)] \<noteq> 3
   \<and> point_in_polygon (1, 1) (ring_without_duplicate_closure [(0, 0), (4, 0), (4, 4), (0, 4), (0, 0)])
       = point_in_polygon (1, 1) [(0, 0), (4, 0), (4, 4), (0, 4), (0, 0)]
   \<and> point_in_polygon (1, 1) [(0, 0), (4, 0), (4, 4), (0, 4), (0, 0)] = Inr True"
proof -
  have h: "hd [(0, 0), (4, 0), (4, 4), (0, 4), (0 :: real, 0 :: real)]
             = last [(0, 0), (4, 0), (4, 4), (0, 4), (0, 0)]"
    "length [(0, 0), (4, 0), (4, 4), (0, 4), (0 :: real, 0 :: real)] \<noteq> 3"
    by simp_all
  have v: "point_in_polygon (1, 1) [(0, 0), (4, 0), (4, 4), (0, 4), (0, 0)] = Inr True"
    by (simp add: point_in_polygon_def edge_intersect_def upt_rec_numeral Let_def)
  from C9_closure_invariance [OF h, of "(1, 1)"] h v show ?thesis by simp
qed

subsection \<open>Simplification\<close>






lemma farthest_empty: "\<not> start + 1 < end \<Longrightarrow> farthest pts start end = (- 1, - 1)"
  by (simp add: farthest_def)



declare dp_loop.simps(2) [simp del]

lemma dp_loop_split:
  "fst (farthest pts start end) > epsilon \<and> snd (farthest pts start end) \<noteq> - 1 \<Longrightarrow>
   dp_loop pts epsilon keep ((start, end) # stack) =
     dp_loop pts epsilon (keep[nat (snd (farthest pts start end)) := True])
       ((nat (snd (farthest pts start end)), end) # (start, nat (snd (farthest pts start end))) # stack)"
  by (subst dp_loop.simps(2)) (simp add: Let_def)

lemma dp_loop_skip:
  "\<not> (fst (farthest pts start end) > epsilon \<and> snd (farthest pts start end) \<noteq> - 1) \<Longrightarrow>
   dp_loop pts epsilon keep ((start, end) # stack) = dp_loop pts epsilon keep stack"
  by (subst dp_loop.simps(2)) (auto simp: Let_def)















subsection \<open>The driver\<close>

lemma strip_example: "strip ''  ab c  '' = ''ab c''"
  by (simp add: strip_def is_space_def)

lemma hypot_50_50: "hypot 50 50 > 4 / 5" "hypot 50 50 > - 1"
proof -
  have "(4 / 5 :: real)\<^sup>2 < 50 * 50 + 50 * 50" by (simp add: power2_eq_square)
  then show "hypot 50 50 > 4 / 5" unfolding hypot_def by (rule real_less_rsqrt)
  then show "hypot 50 50 > - 1" by simp
qed

lemma upt_1_3: "[Suc 0 ..< 3] = [1, 2]" and upt_2_3: "[Suc (Suc 0) ..< 3] = [2]"
  by (simp_all add: eval_nat_numeral upt_conv_Cons)

lemma square_farthest_0_3:
  "farthest [(- 50, - 50), (50, - 50), (50, 50), (- 50, 50)] 0 3 = (100, 1)"
  by (simp add: farthest_def farthest_step_def point_line_distance_def hypot_0
      upt_1_3 Let_def)

lemma square_farthest_1_3:
  "farthest [(- 50, - 50), (50, - 50), (50, 50), (- 50, 50)] 1 3 = (hypot 50 50, 2)"
  using hypot_50_50
  by (simp add: farthest_def farthest_step_def point_line_distance_def
      upt_2_3 Let_def)


lemma square_keep:
  "dp_loop [(- 50, - 50), (50, - 50), (50, 50), (- 50, 50)] (4 / 5)
     [True, False, False, True] [(0, 3)] = [True, True, True, True]"
proof -
  define P :: "point list" where "P = [(- 50, - 50), (50, - 50), (50, 50), (- 50, 50)]"
  have f03: "farthest P 0 3 = (100, 1)" unfolding P_def by (rule square_farthest_0_3)
  have f13: "farthest P (Suc 0) 3 = (hypot 50 50, 2)"
    unfolding P_def using square_farthest_1_3 by simp
  have "dp_loop P (4 / 5) [True, False, False, True] [(0, 3)]
          = dp_loop P (4 / 5) [True, True, False, True] [(1, 3), (0, 1)]"
    by (subst dp_loop_split) (simp_all add: f03)
  also have "\<dots> = dp_loop P (4 / 5) [True, True, True, True] [(2, 3), (1, 2), (0, 1)]"
    using hypot_50_50(1) by (subst dp_loop_split) (simp_all add: f13)
  also have "\<dots> = dp_loop P (4 / 5) [True, True, True, True] [(1, 2), (0, 1)]"
    by (subst dp_loop_skip) (simp_all add: farthest_empty)
  also have "\<dots> = dp_loop P (4 / 5) [True, True, True, True] [(0, 1)]"
    by (subst dp_loop_skip) (simp_all add: farthest_empty)
  also have "\<dots> = dp_loop P (4 / 5) [True, True, True, True] []"
    by (subst dp_loop_skip) (simp_all add: farthest_empty)
  finally show ?thesis unfolding P_def by simp
qed

lemma square_simplified:
  "simplify_douglas_peucker [(- 50, - 50), (50, - 50), (50, 50), (- 50, 50)] (4 / 5)
     = [(- 50, - 50), (50, - 50), (50, 50), (- 50, 50)]"
  using square_keep
  by (simp add: simplify_douglas_peucker_def numeral_3_eq_3 Let_def)

lemma square_area:
  "polygon_area [(- 50, - 50), (50, - 50), (50, 50), (- 50, 50)] = 10000"
  by (simp add: polygon_area_def upt_rec_numeral Let_def)

lemma square_building:
  "building_ring \<lparr>tile_size = 1000, origin_x = 50, origin_y = 50, clip_poly_abs = None,
                   min_building_area = 12, max_building_extent = 500, simplify_meters = 4 / 5\<rparr>
     h [(- 50, - 50), (50, - 50), (50, 50), (- 50, 50)]
   = Inr [(''buildings'', (0, 0),
           Building h [(- 550, - 550), (- 450, - 550), (- 450, - 450), (- 550, - 450)])]"
  by (simp add: building_ring_def square_area square_simplified py_max_def py_min_def
      ring_without_duplicate_closure_def keep_ring_by_clip_def tile_xy_def tile_center_def
      local_points_def Let_def)

text \<open>
  C4 (as stated): the square is assigned to tile (0, 0) and its emitted tile-local vertices
  sum to (0, 0).  The emitted vertices are relative to the centre (500, 500) of tile
  (0, 0), and their sum is (-2000, -2000).
\<close>

theorem C4_local_vertices_sum_counterexample:
  "building_ring \<lparr>tile_size = 1000, origin_x = 50, origin_y = 50, clip_poly_abs = None,
                   min_building_area = 12, max_building_extent = 500, simplify_meters = 4 / 5\<rparr>
     12 [(- 50, - 50), (50, - 50), (50, 50), (- 50, 50)]
   = Inr [(''buildings'', (0, 0),
           Building 12 [(- 550, - 550), (- 450, - 550), (- 450, - 450), (- 550, - 450)])]
   \<and> (sum_list (map fst [(- 550, - 550), (- 450, - 550), (- 450, - 450), (- 550 :: real, - 450 :: real)]),
       sum_list (map snd [(- 550, - 550), (- 450, - 550), (- 450, - 450), (- 550 :: real, - 450 :: real)]))
       \<noteq> (0, 0)"
  by (simp add: square_building)

text \<open>
  C4 (amended): for the square with origin-relative vertices (-50,-50), (50,-50), (50,50),
  (-50,50) (which sum to (0, 0)) and tile size 1000, the building pipeline makes one call
  of \<open>append\<close>, for tile (0, 0), with the vertices re-expressed relative to the centre
  (500, 500) of that tile: (-550,-550), (-450,-550), (-450,-450), (-550,-450), which sum to
  (-2000, -2000).
\<close>

theorem C4_square_building:
  "building_ring \<lparr>tile_size = 1000, origin_x = 50, origin_y = 50, clip_poly_abs = None,
                   min_building_area = 12, max_building_extent = 500, simplify_meters = 4 / 5\<rparr>
     h [(- 50, - 50), (50, - 50), (50, 50), (- 50, 50)]
   = Inr [(''buildings'', (0, 0),
           Building h [(- 550, - 550), (- 450, - 550), (- 450, - 450), (- 550, - 450)])]
   \<and> tile_center 0 0 1000 = (500, 500)
   \<and> sum_list (map fst [(- 50, - 50), (50, - 50), (50, 50), (- 50 :: real, 50 :: real)]) = 0
   \<and> sum_list (map snd [(- 50, - 50), (50, - 50), (50, 50), (- 50 :: real, 50 :: real)]) = 0
   \<and> sum_list (map fst [(- 550, - 550), (- 450, - 550), (- 450, - 450), (- 550 :: real, - 450 :: real)]) = - 2000
   \<and> sum_list (map snd [(- 550, - 550), (- 450, - 550), (- 450, - 450), (- 550 :: real, - 450 :: real)]) = - 2000"
  by (simp add: square_building tile_center_def)

lemma strip_not_empty: "strip s \<noteq> [] \<Longrightarrow> s \<noteq> []"
  by (auto simp: strip_def)

text \<open>
  C10: a railway record reaches the output only if its \<open>type\<close> is \<open>rail\<close> (in any case)
  and its \<open>name\<close> is not empty: for any other type, and for a name that is empty (or
  blank), no call of \<open>append\<close> is made and nothing is raised; a record that makes a call
  of \<open>append\<close> has type \<open>rail\<close> and a non-empty name, and a named \<open>rail\<close> record is
  handed to the geometry stage.
\<close>

theorem C10_railway_filter:
  "(lower (dict_get dbf_rec ''type'' '''') \<noteq> ''rail'' \<or> strip (dict_get dbf_rec ''name'' '''') = []
      \<longrightarrow> railway_record cfg shp_parts dbf_rec = ([], None))
   \<and> (fst (railway_record cfg shp_parts dbf_rec) \<noteq> []
      \<longrightarrow> lower (dict_get dbf_rec ''type'' '''') = ''rail'' \<and> dict_get dbf_rec ''name'' '''' \<noteq> [])
   \<and> (lower (dict_get dbf_rec ''type'' '''') = ''rail'' \<and> strip (dict_get dbf_rec ''name'' '''') \<noteq> []
      \<longrightarrow> railway_record cfg shp_parts dbf_rec = for_parts (railway_part cfg) shp_parts)"
  using strip_not_empty [of "dict_get dbf_rec ''name'' ''''"]
  by (auto simp: railway_record_def Let_def)

lemma origin_track:
  "railway_record
     \<lparr>tile_size = 1024, origin_x = fst (lonlat_to_webmercator_m lon lat),
        origin_y = snd (lonlat_to_webmercator_m lon lat), clip_poly_abs = None,
        min_building_area = 12, max_building_extent = 500, simplify_meters = 4 / 5\<rparr>
     [[(lon, lat), (lon, lat)]] [''type'' \<mapsto> ''Rail'', ''name'' \<mapsto> ''Senzan Line'']
   = ([(''railways'', (0, 0), Railway 4 [(- 512, - 512), (- 512, - 512)])], None)"
  by (simp add: railway_record_def railway_part_def project_def keep_line_by_clip_def
      split_polyline_by_tiles_def split_calls_def visit_point_def add_segment_def
      line_appends_def local_points_def tile_xy_def tile_center_def
      dict_get_def lower_def lower_char_def strip_def is_space_def Let_def)

theorem C10_railway_filter_witness:
  "lower (dict_get [''type'' \<mapsto> ''subway'', ''name'' \<mapsto> ''Namboku Line''] ''type'' '''') \<noteq> ''rail''
   \<and> railway_record
         \<lparr>tile_size = 1024, origin_x = fst (lonlat_to_webmercator_m 140.8815 38.26),
            origin_y = snd (lonlat_to_webmercator_m 140.8815 38.26), clip_poly_abs = None,
            min_building_area = 12, max_building_extent = 500, simplify_meters = 4 / 5\<rparr>
         [[(140.8815, 38.26), (140.8815, 38.26)]] [''type'' \<mapsto> ''subway'', ''name'' \<mapsto> ''Namboku Line''] = ([], None)
   \<and> fst (railway_record
         \<lparr>tile_size = 1024, origin_x = fst (lonlat_to_webmercator_m 140.8815 38.26),
            origin_y = snd (lonlat_to_webmercator_m 140.8815 38.26), clip_poly_abs = None,
            min_building_area = 12, max_building_extent = 500, simplify_meters = 4 / 5\<rparr>
         [[(140.8815, 38.26), (140.8815, 38.26)]] [''type'' \<mapsto> ''Rail'', ''name'' \<mapsto> ''Senzan Line'']) \<noteq> []
   \<and> lower (dict_get [''type'' \<mapsto> ''Rail'', ''name'' \<mapsto> ''Senzan Line''] ''type'' '''') = ''rail''
   \<and> strip (dict_get [''type'' \<mapsto> ''Rail'', ''name'' \<mapsto> ''Senzan Line''] ''name'' '''') \<noteq> []
   \<and> dict_get [''type'' \<mapsto> ''Rail'', ''name'' \<mapsto> ''Senzan Line''] ''name'' '''' \<noteq> []"
proof -
  have a: "lower (dict_get [''type'' \<mapsto> ''subway'', ''name'' \<mapsto> ''Namboku Line''] ''type'' '''')
             \<noteq> ''rail''"
    by (simp add: dict_get_def lower_def lower_char_def)
  have b: "lower (dict_get [''type'' \<mapsto> ''Rail'', ''name'' \<mapsto> ''Senzan Line''] ''type'' '''') = ''rail''"
    "strip (dict_get [''type'' \<mapsto> ''Rail'', ''name'' \<mapsto> ''Senzan Line''] ''name'' '''') \<noteq> []"
    by (simp_all add: dict_get_def lower_def lower_char_def strip_def is_space_def)
  have c: "fst (railway_record
         \<lparr>tile_size = 1024, origin_x = fst (lonlat_to_webmercator_m 140.8815 38.26),
            origin_y = snd (lonlat_to_webmercator_m 140.8815 38.26), clip_poly_abs = None,
            min_building_area = 12, max_building_extent = 500, simplify_meters = 4 / 5\<rparr>
         [[(140.8815, 38.26), (140.8815, 38.26)]] [''type'' \<mapsto> ''Rail'', ''name'' \<mapsto> ''Senzan Line'']) \<noteq> []"
    by (simp add: origin_track)
  note inst = C10_railway_filter [of _
         "\<lparr>tile_size = 1024, origin_x = fst (lonlat_to_webmercator_m 140.8815 38.26),
            origin_y = snd (lonlat_to_webmercator_m 140.8815 38.26), clip_poly_abs = None,
            min_building_area = 12, max_building_extent = 500, simplify_meters = 4 / 5\<rparr>"
         "[[(140.8815, 38.26), (140.8815, 38.26)]]"]
  from inst [of "[''type'' \<mapsto> ''subway'', ''name'' \<mapsto> ''Namboku Line'']"] a
  have d: "railway_record
         \<lparr>tile_size = 1024, origin_x = fst (lonlat_to_webmercator_m 140.8815 38.26),
            origin_y = snd (lonlat_to_webmercator_m 140.8815 38.26), clip_poly_abs = None,
            min_building_area = 12, max_building_extent = 500, simplify_meters = 4 / 5\<rparr>
         [[(140.8815, 38.26), (140.8815, 38.26)]] [''type'' \<mapsto> ''subway'', ''name'' \<mapsto> ''Namboku Line''] = ([], None)"
    by blast
  from inst [of "[''type'' \<mapsto> ''Rail'', ''name'' \<mapsto> ''Senzan Line'']"] c
  have e: "dict_get [''type'' \<mapsto> ''Rail'', ''name'' \<mapsto> ''Senzan Line''] ''name'' '''' \<noteq> []"
    by blast
  from a b c d e show ?thesis by blast
qed






subsection \<open>The streaming writer\<close>

lemma write_to_absent: "path \<notin> fst ` set d \<Longrightarrow> write_to path x d = d"
  by (induction d) (auto simp: write_to_def)

lemma filter_key_absent: "k \<notin> fst ` set d \<Longrightarrow> filter (\<lambda>e. fst e \<noteq> k) d = d"
  by (induction d) auto

lemma filter_key_present:
  "distinct (map fst d) \<Longrightarrow> map_of d k = Some v \<Longrightarrow> filter (\<lambda>e. fst e = k) d = [(k, v)]"
proof (induction d)
  case Nil
  then show ?case by simp
next
  case (Cons e d)
  show ?case
  proof (cases "fst e = k")
    case True
    with Cons.prems have "e = (k, v)" and "k \<notin> fst ` set d" by (auto simp: rev_image_eqI)
    then have "filter (\<lambda>e. fst e = k) d = []" by (auto simp: filter_empty_conv)
    with \<open>e = (k, v)\<close> show ?thesis by simp
  next
    case False
    with Cons show ?thesis by (auto split: if_splits)
  qed
qed

lemma append_line_written:
  assumes "distinct (map fst (files w))"
  shows "write_to path [CHR 0x0A] (write_to path line
           (case map_of (files w) path of
              None \<Rightarrow> files w @ [(path, [])]
            | Some f \<Rightarrow> move_to_end path (files w)))
         = filter (\<lambda>e. fst e \<noteq> path) (files w)
           @ [(path, (case map_of (files w) path of None \<Rightarrow> [] | Some f \<Rightarrow> f) @ line @ [CHR 0x0A])]"
proof (cases "map_of (files w) path")
  case None
  then have absent: "path \<notin> fst ` set (files w)" by (simp add: map_of_eq_None_iff)
  have "write_to path d (files w @ [(path, b)]) = files w @ [(path, b @ d)]" for d b
    using write_to_absent [OF absent, of d] by (simp add: write_to_def)
  with None filter_key_absent [OF absent] show ?thesis by simp
next
  case (Some f)
  note one = filter_key_present [OF assms Some]
  have "path \<notin> fst ` set (filter (\<lambda>e. fst e \<noteq> path) (files w))" by auto
  then have "write_to path d (filter (\<lambda>e. fst e \<noteq> path) (files w) @ [(path, b)])
          = filter (\<lambda>e. fst e \<noteq> path) (files w) @ [(path, b @ d)]" for d b
    using write_to_absent [of path "filter (\<lambda>e. fst e \<noteq> path) (files w)" d]
    by (simp add: write_to_def)
  with Some one show ?thesis by (simp add: move_to_end_def)
qed

lemma keys_filter: "map fst (filter (\<lambda>e. fst e \<noteq> k) d) = removeAll k (map fst d)"
  by (induction d) auto

lemma remdups_snoc: "remdups (xs @ [p]) = removeAll p (remdups xs) @ [p]"
  by (induction xs) auto

lemma most_recent_suffix:
  "length B \<le> n \<Longrightarrow> A = [] \<or> length B = n \<Longrightarrow> most_recent n (A @ B) = B"
  by (auto simp: most_recent_def)

lemma most_recent_split: "xs = take (length xs - n) xs @ most_recent n xs"
  by (simp add: most_recent_def)

lemma length_most_recent: "length (most_recent n xs) = min n (length xs)"
  by (auto simp: most_recent_def)

lemma length_removeAll_distinct:
  "distinct xs \<Longrightarrow> length (removeAll p xs) = length xs - (if p \<in> set xs then 1 else 0)"
  by (simp add: distinct_remove1_removeAll [symmetric] length_remove1)

lemma lru_keys_step:
  fixes R :: "'a list" and n :: nat and p :: 'a
  assumes "distinct R"
  defines "L \<equiv> most_recent n R"
  defines "W \<equiv> removeAll p L @ [p]"
  shows "(if length W > n then tl W else W) = most_recent n (removeAll p R @ [p])"
proof -
  define pre where "pre = take (length R - n) R"
  have R: "R = pre @ L" unfolding pre_def L_def by (rule most_recent_split)
  with assms(1) have dL: "distinct L" by (metis distinct_append)
  have lenL: "length L = min n (length R)" unfolding L_def by (rule length_most_recent)
  have lenW: "length W = length L - (if p \<in> set L then 1 else 0) + 1"
    unfolding W_def by (simp add: length_removeAll_distinct [OF dL])
  have new: "removeAll p R @ [p] = removeAll p pre @ W"
    unfolding W_def by (subst R) simp
  show ?thesis
  proof (cases "length W > n")
    case False
    have "removeAll p pre = [] \<or> length W = n"
    proof (cases "length R \<le> n")
      case True
      then show ?thesis by (simp add: pre_def)
    next
      case long: False
      with lenL have "length L = n" by simp
      with lenW False show ?thesis by (auto split: if_splits)
    qed
    with False have "most_recent n (removeAll p pre @ W) = W"
      by (intro most_recent_suffix) simp_all
    with False new show ?thesis by simp
  next
    case True
    have "p \<in> set L \<Longrightarrow> 0 < length L" by (rule length_pos_if_in_set)
    with True lenW lenL have full: "length L = n" and notin: "p \<notin> set L"
      by (auto split: if_splits)
    from notin have W: "W = L @ [p]" by (simp add: W_def)
    show ?thesis
    proof (cases L)
      case Nil
      with full have "n = 0" by simp
      with True W Nil show ?thesis by (simp add: most_recent_def)
    next
      case (Cons x L')
      with W have tlW: "tl W = L' @ [p]" by simp
      from Cons full have len: "length (L' @ [p]) = n" by auto
      have "removeAll p pre @ W = (removeAll p pre @ [x]) @ (L' @ [p])"
        using W Cons by simp
      moreover have "most_recent n ((removeAll p pre @ [x]) @ (L' @ [p])) = L' @ [p]"
        using len by (intro most_recent_suffix) simp_all
      ultimately show ?thesis using True new tlW by simp
    qed
  qed
qed

lemma map_of_filter_other:
  "q \<noteq> k \<Longrightarrow> map_of (filter (\<lambda>e. fst e \<noteq> k) d) q = map_of d q"
  by (induction d) auto

lemma map_of_filter_same: "map_of (filter (\<lambda>e. fst e \<noteq> k) d) k = None"
  by (induction d) auto

lemma contents_written:
  "contents (w\<lparr>files := filter (\<lambda>e. fst e \<noteq> path) (files w)
        @ [(path, (case map_of (files w) path of None \<Rightarrow> [] | Some f \<Rightarrow> f) @ data)]\<rparr>) q
     = contents w q @ (if q = path then data else [])"
  by (simp add: contents_def map_of_filter_other map_of_filter_same map_add_def
      split: option.splits)

lemma contents_evict:
  assumes "distinct (map fst (e # rest))"
  shows "contents (w\<lparr>files := rest, disk := close_file (disk w) e\<rparr>) q
           = contents (w\<lparr>files := e # rest\<rparr>) q"
proof (cases "q = fst e")
  case True
  with assms have "map_of rest q = None" by (auto simp: map_of_eq_None_iff)
  with True show ?thesis by (simp add: contents_def close_file_def)
next
  case False
  then show ?thesis by (simp add: contents_def close_file_def)
qed

lemma distinct_written:
  "distinct (map fst d) \<Longrightarrow> distinct (map fst (filter (\<lambda>e. fst e \<noteq> path) d @ [(path, b)]))"
  by (simp add: keys_filter distinct_removeAll)

lemma append_line_eq:
  fixes w :: lru_writer and path line :: string
  assumes "distinct (map fst (files w))"
  defines "written \<equiv> filter (\<lambda>e. fst e \<noteq> path) (files w)
           @ [(path, (case map_of (files w) path of None \<Rightarrow> [] | Some f \<Rightarrow> f) @ line @ [CHR 0x0A])]"
  shows "append_line path line w =
           (if int (length written) > max_open w
            then w\<lparr>files := tl written, disk := close_file (disk w) (hd written)\<rparr>
            else w\<lparr>files := written\<rparr>)"
  unfolding append_line_def Let_def append_line_written [OF assms(1)] written_def ..

lemma append_line_props:
  assumes d: "distinct (map fst (files w))"
  shows "max_open (append_line path line w) = max_open w"
    and "distinct (map fst (files (append_line path line w)))"
    and "contents (append_line path line w) q
           = contents w q @ (if q = path then line @ [CHR 0x0A] else [])"
    and "map fst (files (append_line path line w))
           = (let W = removeAll path (map fst (files w)) @ [path]
              in if int (length W) > max_open w then tl W else W)"
proof -
  define written where "written = filter (\<lambda>e. fst e \<noteq> path) (files w)
           @ [(path, (case map_of (files w) path of None \<Rightarrow> [] | Some f \<Rightarrow> f) @ line @ [CHR 0x0A])]"
  note eq = append_line_eq [OF d, of path line, folded written_def]
  have dw: "distinct (map fst written)" unfolding written_def using d by (rule distinct_written)
  have cw: "contents (w\<lparr>files := written\<rparr>) q
              = contents w q @ (if q = path then line @ [CHR 0x0A] else [])"
    unfolding written_def by (rule contents_written)
  have ne: "written \<noteq> []" by (simp add: written_def)
  then have hw: "written = hd written # tl written" by simp
  have keys: "map fst written = removeAll path (map fst (files w)) @ [path]"
    by (simp add: written_def keys_filter)
  show "max_open (append_line path line w) = max_open w" by (simp add: eq)
  show "distinct (map fst (files (append_line path line w)))"
    using dw ne by (auto simp: eq distinct_tl map_tl)
  show "contents (append_line path line w) q
           = contents w q @ (if q = path then line @ [CHR 0x0A] else [])"
  proof (cases "int (length written) > max_open w")
    case True
    from dw hw have "distinct (map fst (hd written # tl written))" by simp
    from contents_evict [OF this, of w q] hw cw True show ?thesis by (simp add: eq)
  next
    case False
    with cw show ?thesis by (simp add: eq)
  qed
  show "map fst (files (append_line path line w))
           = (let W = removeAll path (map fst (files w)) @ [path]
              in if int (length W) > max_open w then tl W else W)"
  proof -
    from keys have "length written = length (removeAll path (map fst (files w)) @ [path])"
      by (metis length_map)
    with keys show ?thesis by (simp add: eq Let_def map_tl)
  qed
qed

lemma append_lines_snoc:
  "append_lines (ops @ [op]) w = append_line (fst op) (snd op) (append_lines ops w)"
  by (simp add: append_lines_def)

lemma lines_of_snoc:
  "lines_of q (ops @ [op]) = lines_of q ops @ (if q = fst op then snd op @ [CHR 0x0A] else [])"
  by (simp add: lines_of_def)

lemma append_lines_inv:
  assumes "0 \<le> m"
  shows "max_open (append_lines ops (new_writer m d0)) = m
       \<and> distinct (map fst (files (append_lines ops (new_writer m d0))))
       \<and> map fst (files (append_lines ops (new_writer m d0)))
           = most_recent (nat m) (remdups (map fst ops))
       \<and> (\<forall>q. contents (append_lines ops (new_writer m d0)) q = d0 q @ lines_of q ops)"
proof (induction ops rule: rev_induct)
  case Nil
  show ?case
    by (simp add: append_lines_def new_writer_def most_recent_def contents_def lines_of_def)
next
  case (snoc op ops)
  let ?w = "append_lines ops (new_writer m d0)"
  from snoc have mo: "max_open ?w = m" and d: "distinct (map fst (files ?w))"
    and keys: "map fst (files ?w) = most_recent (nat m) (remdups (map fst ops))"
    and cont: "\<And>q. contents ?w q = d0 q @ lines_of q ops"
    by blast+
  note props = append_line_props [OF d, of "fst op" "snd op"]
  have gt: "(int (length W) > m) = (length W > nat m)" for W :: "string list"
    using assms by linarith
  have "map fst (files (append_line (fst op) (snd op) ?w))
          = (let W = removeAll (fst op) (most_recent (nat m) (remdups (map fst ops))) @ [fst op]
             in if length W > nat m then tl W else W)"
    unfolding props(4) keys mo gt ..
  also have "\<dots> = most_recent (nat m) (removeAll (fst op) (remdups (map fst ops)) @ [fst op])"
    unfolding Let_def by (rule lru_keys_step) simp
  also have "\<dots> = most_recent (nat m) (remdups (map fst (ops @ [op])))"
    by (simp add: remdups_snoc)
  finally have k: "map fst (files (append_line (fst op) (snd op) ?w))
          = most_recent (nat m) (remdups (map fst (ops @ [op])))" .
  have c: "contents (append_line (fst op) (snd op) ?w) q = d0 q @ lines_of q (ops @ [op])" for q
    unfolding props(3) cont lines_of_snoc by simp
  from props(1,2) mo k c show ?case
    unfolding append_lines_snoc by simp
qed

lemma close_all_disk:
  "distinct (map fst fs) \<Longrightarrow>
   foldl close_file d fs q = d q @ (case map_of fs q of None \<Rightarrow> [] | Some f \<Rightarrow> f)"
proof (induction fs arbitrary: d)
  case Nil
  then show ?case by simp
next
  case (Cons e fs)
  from Cons.prems have dfs: "distinct (map fst fs)" and e: "fst e \<notin> fst ` set fs" by auto
  from e have none: "map_of fs (fst e) = None" by (simp add: map_of_eq_None_iff)
  have "foldl close_file d (e # fs) q
          = close_file d e q @ (case map_of fs q of None \<Rightarrow> [] | Some f \<Rightarrow> f)"
    by (simp add: Cons.IH [OF dfs])
  also have "\<dots> = d q @ (case map_of (e # fs) q of None \<Rightarrow> [] | Some f \<Rightarrow> f)"
    using none by (cases e) (auto simp: close_file_def)
  finally show ?case .
qed

lemma close_writer_disk:
  "distinct (map fst (files w)) \<Longrightarrow> disk (close_writer w) q = contents w q"
  by (simp add: close_writer_def contents_def close_all_disk)

text \<open>
  C6: in a writer created with a bound \<open>max_open\<close> of at least 0, after every
  \<open>append_line\<close> call at most \<open>max_open\<close> channels are open, and they are the most
  recently written paths, the least recently written first (so the channel evicted when
  the bound is exceeded is the least recently written one); the text of every path, on
  disk and pending, is its earlier content followed by all the lines written to it in
  order; a path that is not open (never opened, or evicted) has all of its lines on disk;
  and the final \<open>close\<close> leaves every line on disk and no channel open.
\<close>

theorem C6_lru_writer:
  assumes "0 \<le> m"
  shows "int (length (files (append_lines ops (new_writer m d0)))) \<le> m
       \<and> map fst (files (append_lines ops (new_writer m d0)))
           = most_recent (nat m) (remdups (map fst ops))
       \<and> contents (append_lines ops (new_writer m d0)) q = d0 q @ lines_of q ops
       \<and> (q \<notin> fst ` set (files (append_lines ops (new_writer m d0)))
            \<longrightarrow> disk (append_lines ops (new_writer m d0)) q = d0 q @ lines_of q ops)
       \<and> disk (close_writer (append_lines ops (new_writer m d0))) q = d0 q @ lines_of q ops
       \<and> files (close_writer (append_lines ops (new_writer m d0))) = []"
proof -
  let ?w = "append_lines ops (new_writer m d0)"
  note inv = append_lines_inv [OF assms, of ops d0]
  from inv have keys: "map fst (files ?w) = most_recent (nat m) (remdups (map fst ops))"
    and d: "distinct (map fst (files ?w))"
    and c: "contents ?w q = d0 q @ lines_of q ops" by blast+
  have "length (map fst (files ?w)) \<le> nat m"
    unfolding keys by (simp add: length_most_recent)
  with assms have bound: "int (length (files ?w)) \<le> m" by simp
  have closed: "q \<notin> fst ` set (files ?w) \<Longrightarrow> disk ?w q = d0 q @ lines_of q ops"
  proof -
    assume "q \<notin> fst ` set (files ?w)"
    then have "map_of (files ?w) q = None" by (simp add: map_of_eq_None_iff)
    with c show ?thesis by (simp add: contents_def)
  qed
  from bound keys c closed close_writer_disk [OF d, of q] show ?thesis
    by (simp add: close_writer_def)
qed

theorem C6_lru_writer_witness:
  "(0 :: int) \<le> 1
   \<and> map fst (files (append_lines [(''a'', ''x''), (''b'', ''y''), (''a'', ''z'')]
                       (new_writer 1 (\<lambda>p. [])))) = [''a'']
   \<and> disk (append_lines [(''a'', ''x''), (''b'', ''y''), (''a'', ''z'')]
             (new_writer 1 (\<lambda>p. []))) ''b'' = [CHR ''y'', CHR 0x0A]
   \<and> disk (append_lines [(''a'', ''x''), (''b'', ''y''), (''a'', ''z'')]
             (new_writer 1 (\<lambda>p. []))) ''a'' = [CHR ''x'', CHR 0x0A]
   \<and> contents (append_lines [(''a'', ''x''), (''b'', ''y''), (''a'', ''z'')]
             (new_writer 1 (\<lambda>p. []))) ''a'' = [CHR ''x'', CHR 0x0A, CHR ''z'', CHR 0x0A]
   \<and> ''b'' \<notin> fst ` set (files (append_lines [(''a'', ''x''), (''b'', ''y''), (''a'', ''z'')]
                       (new_writer 1 (\<lambda>p. []))))"
proof -
  have w: "append_lines [(''a'', ''x''), (''b'', ''y''), (''a'', ''z'')] (new_writer 1 (\<lambda>p. []))
     = \<lparr>max_open = 1, files = [(''a'', [CHR ''z'', CHR 0x0A])],
        disk = (\<lambda>p. [])(''a'' := [CHR ''x'', CHR 0x0A], ''b'' := [CHR ''y'', CHR 0x0A])\<rparr>"
    by (simp add: append_lines_def append_line_def new_writer_def move_to_end_def write_to_def
        close_file_def Let_def)
  have h: "(0 :: int) \<le> 1" by simp
  from C6_lru_writer [OF h, of "[(''a'', ''x''), (''b'', ''y''), (''a'', ''z'')]" "\<lambda>p. []" "''a''"]
    C6_lru_writer [OF h, of "[(''a'', ''x''), (''b'', ''y''), (''a'', ''z'')]" "\<lambda>p. []" "''b''"]
  show ?thesis by (simp add: w contents_def)
qed

subsection \<open>The binary vector decoder\<close>

declare iter_records.simps [simp del]

lemma slice_parts_length: "part \<in> set (slice_parts part_starts points) \<Longrightarrow> 2 \<le> length part"
  by (simp add: slice_parts_def)

lemma decode_record_yield:
  assumes "decode_record content = Inr (Some r)"
  shows "shape_type r \<in> {3, 5, 13, 15}" and "part \<in> set (parts r) \<Longrightarrow> 2 \<le> length part"
proof -
  from assms obtain part_starts points where
    r: "r = \<lparr>shape_type = le_i32 (py_slice content 0 4), parts = slice_parts part_starts points\<rparr>"
    and st: "le_i32 (py_slice content 0 4) \<in> {3, 5, 13, 15}"
    unfolding decode_record_def Let_def
    by (auto split: if_splits sum.splits)
  from r st show "shape_type r \<in> {3, 5, 13, 15}" by simp
  assume "part \<in> set (parts r)"
  with r show "2 \<le> length part" by (simp add: slice_parts_length)
qed

lemma rest_shorter:
  "length (read_bytes 8 stream) = 8 \<Longrightarrow>
   length (after_read n (after_read 8 stream)) < length stream"
  by (auto simp: read_bytes_def after_read_def split: if_splits)

lemma iter_records_yield:
  "r \<in> set (fst (iter_records stream)) \<Longrightarrow> \<exists>content. decode_record content = Inr (Some r)"
proof (induction "length stream" arbitrary: stream r rule: less_induct)
  case less
  let ?n = "be_i32 (py_slice (read_bytes 8 stream) 4 8) * 2"
  let ?content = "read_bytes ?n (after_read 8 stream)"
  let ?rest = "after_read ?n (after_read 8 stream)"
  from less.prems have run: "length (read_bytes 8 stream) = 8"
    and full: "int (length ?content) = ?n"
    by (subst (asm) iter_records.simps, simp add: Let_def split: if_splits)+
  from rest_shorter [OF run] have shorter: "length ?rest < length stream" .
  show ?case
  proof (cases "decode_record ?content")
    case (Inl e)
    with less.prems run full show ?thesis
      by (subst (asm) iter_records.simps) (simp add: Let_def)
  next
    case (Inr v)
    show ?thesis
    proof (cases v)
      case None
      with Inr less.prems run full have "r \<in> set (fst (iter_records ?rest))"
        by (subst (asm) iter_records.simps) (simp add: Let_def)
      with less.hyps [OF shorter] show ?thesis .
    next
      case (Some r')
      with Inr less.prems run full have "r = r' \<or> r \<in> set (fst (iter_records ?rest))"
        by (subst (asm) iter_records.simps) (simp add: Let_def)
      then show ?thesis
      proof
        assume "r = r'"
        with Inr Some show ?thesis by blast
      next
        assume "r \<in> set (fst (iter_records ?rest))"
        with less.hyps [OF shorter] show ?thesis .
      qed
    qed
  qed
qed

lemma iter_shp_records_yield:
  "r \<in> set (fst (iter_shp_records file)) \<Longrightarrow> \<exists>content. decode_record content = Inr (Some r)"
  by (auto simp: iter_shp_records_def Let_def iter_records_yield split: if_splits)

lemma polygon_content_length: "length polygon_content = 80" by (simp add: polygon_content_def)

lemma polygon_slices: "py_slice polygon_content 0 4 = [5, 0, 0, 0]"
  "py_slice polygon_content 36 40 = [1, 0, 0, 0]"
  "py_slice polygon_content 40 44 = [2, 0, 0, 0]"
  "py_slice polygon_content 44 48 = [0, 0, 0, 0]"
  "py_slice polygon_content 48 64 = replicate 16 0"
  "py_slice polygon_content 64 80 = [0, 0, 0, 0, 0, 0, 240, 63] @ replicate 8 0"
  by (simp_all add: py_slice_def slice_bound_def polygon_content_def)

lemma polygon_ints: "le_i32 [5, 0, 0, 0] = 5" "le_i32 [1, 0, 0, 0] = 1" "le_i32 [2, 0, 0, 0] = 2"
  "le_i32 [0, 0, 0, 0] = 0" "be_i32 [0, 0, 0, 40] = 40"
  by (simp_all add: le_i32_def be_i32_def to_signed32_def)

lemma le_nat_zeros: "le_nat (replicate n 0) = 0"
  by (induction n) simp_all

lemma polygon_doubles: "le_f64 (replicate 8 0) = 0" "le_f64 [0, 0, 0, 0, 0, 0, 240, 63] = 0x3FF0000000000000"
  by (simp_all add: le_f64_def le_nat_zeros)

lemma polygon_points: "read_points polygon_content 48 [0..<2] = Inr [(0, 0), (0x3FF0000000000000, 0)]"
proof -
  have u: "[0..<2] = [0, Suc 0]" by (simp add: eval_nat_numeral upt_conv_Cons)
  have a: "py_slice polygon_content 48 64 = replicate 8 0 @ replicate 8 0"
    by (simp add: polygon_slices replicate_add [symmetric])
  show ?thesis
    unfolding u by (simp add: polygon_content_length a polygon_slices polygon_doubles Let_def)
qed

lemma polygon_parts: "slice_parts [0] [(0, 0), (0x3FF0000000000000 :: float64, 0 :: float64)]
   = [[(0, 0), (0x3FF0000000000000, 0)]]"
  by (simp add: slice_parts_def py_slice_def slice_bound_def)

lemma polygon_decoded: "decode_record polygon_content
   = Inr (Some \<lparr>shape_type = 5, parts = [[(0, 0), (0x3FF0000000000000, 0)]]\<rparr>)"
proof -
  have n: "nat 2 = (2 :: nat)" by simp
  show ?thesis
    unfolding decode_record_def Let_def
    by (simp add: polygon_content_length polygon_slices polygon_ints polygon_points polygon_parts n)
qed

lemma polygon_file_decoded:
  "iter_shp_records polygon_file
     = ([\<lparr>shape_type = 5, parts = [[(0, 0), (0x3FF0000000000000, 0)]]\<rparr>], None)"
proof -
  define stream where "stream = [0, 0, 0, 1, 0, 0, 0, 40] @ polygon_content"
  have h: "read_bytes 100 polygon_file = replicate 100 0"
    and a: "after_read 100 polygon_file = stream"
    by (simp_all add: polygon_file_def stream_def read_bytes_def after_read_def)
  have r8: "read_bytes 8 stream = [0, 0, 0, 1, 0, 0, 0, 40]"
    and a8: "after_read 8 stream = polygon_content"
    by (simp_all add: stream_def read_bytes_def after_read_def)
  have w: "py_slice [0, 0, 0, 1, 0, 0, 0, 40 :: byte] 4 8 = [0, 0, 0, 40]"
    by (simp add: py_slice_def slice_bound_def)
  have c: "read_bytes 80 polygon_content = polygon_content"
    and e: "after_read 80 polygon_content = []"
    by (simp_all add: read_bytes_def after_read_def polygon_content_length)
  have stop: "iter_records [] = ([], None)"
    by (subst iter_records.simps) (simp add: read_bytes_def)
  have "iter_records stream
          = ([\<lparr>shape_type = 5, parts = [[(0, 0), (0x3FF0000000000000, 0)]]\<rparr>], None)"
    by (subst iter_records.simps)
      (simp add: r8 a8 w polygon_ints c e polygon_content_length polygon_decoded stop Let_def)
  then show ?thesis by (simp add: iter_shp_records_def h a)
qed

text \<open>
  C5 (as stated): every part of a polygon-shaped record that the decoder yields has at
  least 3 points.  A Polygon record (shape type 5) whose only part has 2 points is yielded
  with that part.
\<close>

theorem C5_polygon_part_of_two_points_counterexample:
  "iter_shp_records polygon_file
     = ([\<lparr>shape_type = 5, parts = [[(0, 0), (0x3FF0000000000000, 0)]]\<rparr>], None)
   \<and> length [(0 :: float64, 0 :: float64), (0x3FF0000000000000, 0)] < 3"
  by (simp add: polygon_file_decoded)

text \<open>
  C5 (amended): every record that the decoder yields is polyline- or polygon-shaped
  (shape type 3, 5, 13 or 15) and each of its parts has at least 2 points, whatever the
  shape; parts with fewer than 2 points are dropped at decode time.  A polygon part with
  fewer than 3 points is dropped later, by the driver (the buildings loop makes no call
  of \<open>append\<close> for it).
\<close>

theorem C5_decoded_parts:
  "(r \<in> set (fst (iter_shp_records file)) \<longrightarrow>
      shape_type r \<in> {3, 5, 13, 15} \<and> (\<forall>part \<in> set (parts r). 2 \<le> length part))
   \<and> (length lonlat_part < 3 \<longrightarrow> building_part cfg h lonlat_part = Inr [])"
proof (intro conjI impI ballI)
  assume "r \<in> set (fst (iter_shp_records file))"
  then obtain content where c: "decode_record content = Inr (Some r)"
    using iter_shp_records_yield by blast
  from c show "shape_type r \<in> {3, 5, 13, 15}" by (rule decode_record_yield(1))
  fix part assume "part \<in> set (parts r)"
  with c show "2 \<le> length part" by (rule decode_record_yield(2))
next
  assume "length lonlat_part < 3"
  then show "building_part cfg h lonlat_part = Inr []" by (simp add: building_part_def)
qed

theorem C5_decoded_parts_witness:
  "\<lparr>shape_type = 5, parts = [[(0, 0), (0x3FF0000000000000, 0)]]\<rparr>
     \<in> set (fst (iter_shp_records polygon_file))
   \<and> (5 :: int) \<in> {3, 5, 13, 15}
   \<and> 2 \<le> length [(0 :: float64, 0 :: float64), (0x3FF0000000000000, 0)]
   \<and> length [(0 :: real, 0 :: real), (1, 0)] < 3
   \<and> building_part \<lparr>tile_size = 1024, origin_x = 0, origin_y = 0, clip_poly_abs = None,
                      min_building_area = 12, max_building_extent = 500,
                      simplify_meters = 4 / 5\<rparr> 12 [(0, 0), (1, 0)] = Inr []"
  using C5_decoded_parts [of "\<lparr>shape_type = 5, parts = [[(0, 0), (0x3FF0000000000000, 0)]]\<rparr>"
      polygon_file "[(0, 0), (1, 0)]"
      "\<lparr>tile_size = 1024, origin_x = 0, origin_y = 0, clip_poly_abs = None,
         min_building_area = 12, max_building_extent = 500, simplify_meters = 4 / 5\<rparr>" 12]
  by (simp add: polygon_file_decoded)

end
